theory Spec2Isabelle
  imports Main "HOL-Library.Sublist"
begin

section \<open>Text: strings of Unicode code points\<close>

text \<open>
  A Python \<open>str\<close> is a sequence of Unicode code points and \<open>len\<close> counts code points,
  so a character is its code point and a string a list of them. ASCII literals are
  written \<open>asc ''...''\<close>; Cyrillic literals are lists of code points.
\<close>

type_synonym uchar = nat
type_synonym ustring = "uchar list"

definition asc :: "string \<Rightarrow> ustring" where
  "asc s = map of_char s"

datatype py_error = ValueError | KeyError | RecursionError

text \<open>
  \<open>str.isspace\<close>, \<open>str.strip()\<close>, \<open>str.split()\<close> and the regular expression class
  \<open>\s\<close> all use the same set of white space code points: U+0009..U+000D,
  U+001C..U+0020, U+0085, U+00A0, U+1680, U+2000..U+200A, U+2028, U+2029, U+202F,
  U+205F and U+3000.
\<close>

definition is_space :: "uchar \<Rightarrow> bool" where
  "is_space c \<longleftrightarrow>
     (9 \<le> c \<and> c \<le> 13) \<or> (28 \<le> c \<and> c \<le> 32) \<or> c = 133 \<or> c = 160 \<or> c = 5760 \<or>
     (8192 \<le> c \<and> c \<le> 8202) \<or> c = 8232 \<or> c = 8233 \<or> c = 8239 \<or> c = 8287 \<or> c = 12288"

definition strip :: "ustring \<Rightarrow> ustring" where
  "strip s = rev (dropWhile is_space (rev (dropWhile is_space s)))"

text \<open>\<open>s.split()\<close>: the maximal runs of characters that are not white space.\<close>

function py_split :: "ustring \<Rightarrow> ustring list" where
  "py_split s =
     (case dropWhile is_space s of
        [] \<Rightarrow> []
      | c # r \<Rightarrow> takeWhile (\<lambda>x. \<not> is_space x) (c # r)
                 # py_split (dropWhile (\<lambda>x. \<not> is_space x) r))"
  by pat_completeness auto
termination
proof (relation "measure length")
  show "wf (measure length)" by simp
next
  fix s :: ustring and c r
  assume a: "dropWhile is_space s = c # r"
  have "length (dropWhile (\<lambda>x. \<not> is_space x) r) \<le> length r"
    by (rule length_dropWhile_le)
  moreover have "length (c # r) \<le> length s"
    using length_dropWhile_le [of is_space s] a by simp
  ultimately show "(dropWhile (\<lambda>x. \<not> is_space x) r, s) \<in> measure length"
    by simp
qed

declare py_split.simps [simp del]


section \<open>TextChunker: \<open>bot/text_splitter.py\<close>\<close>

subsection \<open>\<open>re.split(r'([.!?]+\s+)', text)\<close>\<close>

definition is_term :: "uchar \<Rightarrow> bool" where
  "is_term c \<longleftrightarrow> c = 46 \<or> c = 33 \<or> c = 63"

text \<open>
  A match of \<open>[.!?]+\s+\<close> at the head of \<open>s\<close>: the matched text and what follows it. Both
  repetitions are greedy, and giving back part of the punctuation run never helps, as
  the character after a shorter run is punctuation and not white space.
\<close>

definition sep_match :: "ustring \<Rightarrow> (ustring \<times> ustring) option" where
  "sep_match s =
     (let p = takeWhile is_term s; r = dropWhile is_term s;
          w = takeWhile is_space r
      in if p \<noteq> [] \<and> w \<noteq> [] then Some (p @ w, dropWhile is_space r) else None)"

lemma sep_match_shorter: "sep_match s = Some (m, rest) \<Longrightarrow> length rest < length s"
proof -
  assume a: "sep_match s = Some (m, rest)"
  have l1: "length (dropWhile is_space (dropWhile is_term s)) \<le> length (dropWhile is_term s)"
    by (rule length_dropWhile_le)
  have "takeWhile is_term s \<noteq> [] \<Longrightarrow> length (dropWhile is_term s) < length s"
    by (cases s) (auto simp: le_imp_less_Suc length_dropWhile_le split: if_splits)
  with a l1 show ?thesis
    by (auto simp: sep_match_def Let_def split: if_splits)
qed

text \<open>
  The scan tries a match at each position from the left; the pieces between the matches
  and the matches themselves (the pattern is one capturing group) alternate in the
  result, which starts and ends with a piece.
\<close>

function re_split :: "ustring \<Rightarrow> ustring list" where
  "re_split [] = [[]]"
| "re_split (c # cs) =
     (case sep_match (c # cs) of
        Some (m, rest) \<Rightarrow> [] # m # re_split rest
      | None \<Rightarrow> (case re_split cs of
                   p # ps \<Rightarrow> (c # p) # ps
                 | [] \<Rightarrow> [[c]]))"
  by pat_completeness auto
termination
  by (relation "measure length") (auto dest: sep_match_shorter)

subsection \<open>\<open>split_text\<close> and \<open>_split_by_words\<close>\<close>

text \<open>
  The loop over \<open>range(0, len(sentences) - 1, 2)\<close> joins each piece with the separator
  after it (its \<open>else\<close> branch cannot be reached, as \<open>i + 1 < len(sentences)\<close> holds for
  every such \<open>i\<close>); a list of odd length then contributes its last piece.
\<close>

fun reconstruct :: "ustring list \<Rightarrow> ustring list" where
  "reconstruct (a # b # rest) = (a @ b) # reconstruct rest"
| "reconstruct [a] = [a]"
| "reconstruct [] = []"

text \<open>\<open>word[i:i + max_length]\<close> for \<open>i\<close> in \<open>range(0, len(word), max_length)\<close>, for a
  positive step; \<open>range\<close> raises \<open>ValueError\<close> on the step 0, which the caller of \<open>chop\<close>
  models.\<close>

function chop :: "nat \<Rightarrow> ustring \<Rightarrow> ustring list" where
  "chop M w = (if M = 0 \<or> w = [] then [] else take M w # chop M (drop M w))"
  by pat_completeness auto
termination
  by (relation "measure (\<lambda>(M, w). length w)") auto

declare chop.simps [simp del]

type_synonym chunker_state = "ustring list \<times> ustring"

definition flush :: "chunker_state \<Rightarrow> ustring list" where
  "flush st = (case st of (chunks, current_chunk) \<Rightarrow>
     if current_chunk \<noteq> [] then chunks @ [strip current_chunk] else chunks)"

text \<open>The loop of \<open>_split_by_words\<close> over the words, on the state \<open>(chunks, current_chunk)\<close>.\<close>

fun words_loop :: "nat \<Rightarrow> chunker_state \<Rightarrow> ustring list \<Rightarrow> py_error + chunker_state" where
  "words_loop M st [] = Inr st"
| "words_loop M st (word # ws) =
     (if length word > M then
        (if M = 0 then Inl ValueError
         else words_loop M (flush st @ chop M word, []) ws)
      else if length (snd st) + length word + 1 > M then
        words_loop M (flush st, word) ws
      else
        words_loop M (fst st, if snd st \<noteq> [] then snd st @ [32] @ word else word) ws)"

definition split_by_words :: "ustring \<Rightarrow> nat \<Rightarrow> py_error + ustring list" where
  "split_by_words text M =
     (case words_loop M ([], []) (py_split text) of
        Inl e \<Rightarrow> Inl e
      | Inr st \<Rightarrow> Inr (flush st))"

text \<open>The loop of \<open>split_text\<close> over the sentences.\<close>

fun sentence_loop :: "nat \<Rightarrow> chunker_state \<Rightarrow> ustring list \<Rightarrow> py_error + chunker_state" where
  "sentence_loop M st [] = Inr st"
| "sentence_loop M st (sentence # ss) =
     (if length sentence > M then
        (case split_by_words sentence M of
           Inl e \<Rightarrow> Inl e
         | Inr word_chunks \<Rightarrow> sentence_loop M (fst st @ word_chunks, []) ss)
      else if length (snd st) + length sentence > M then
        (if snd st \<noteq> [] \<and> length (snd st) \<ge> 2000 then
           sentence_loop M (fst st @ [strip (snd st)], sentence) ss
         else sentence_loop M (fst st, snd st @ sentence) ss)
      else sentence_loop M (fst st, snd st @ sentence) ss)"

definition split_text :: "ustring \<Rightarrow> int \<Rightarrow> py_error + ustring list" where
  "split_text text max_length =
     (let M = nat (if max_length < 2000 then 2000 else max_length) in
      if text = [] \<or> strip text = [] then Inr []
      else if length text \<le> M then Inr [text]
      else (case sentence_loop M ([], []) (reconstruct (re_split text)) of
              Inl e \<Rightarrow> Inl e
            | Inr st \<Rightarrow> Inr (filter (\<lambda>chunk. strip chunk \<noteq> []) (flush st))))"


section \<open>NumberWordConverter: \<open>bot/numbers.py\<close>\<close>

subsection \<open>The numeral lexicon\<close>

text \<open>The dictionaries \<open>ONES\<close> and \<open>TENS\<close>, in the order of the source; the words are
  the Cyrillic strings of the source, written as code points.\<close>

definition ONES :: "(int \<times> ustring) list" where
  "ONES =
    [(0, []),
     (1, [1073, 1080, 1088]),
     (2, [1080, 1082, 1082, 1080]),
     (3, [1091, 1095]),
     (4, [1090, 1118, 1088, 1090]),
     (5, [1073, 1077, 1096]),
     (6, [1086, 1083, 1090, 1080]),
     (7, [1077, 1090, 1090, 1080]),
     (8, [1089, 1072, 1082, 1082, 1080, 1079]),
     (9, [1090, 1118, 1179, 1179, 1080, 1079])]"

definition TENS :: "(int \<times> ustring) list" where
  "TENS =
    [(10, [1118, 1085]),
     (20, [1081, 1080, 1075, 1080, 1088, 1084, 1072]),
     (30, [1118, 1090, 1090, 1080, 1079]),
     (40, [1179, 1080, 1088, 1179]),
     (50, [1101, 1083, 1083, 1080, 1082]),
     (60, [1086, 1083, 1090, 1084, 1080, 1096]),
     (70, [1077, 1090, 1084, 1080, 1096]),
     (80, [1089, 1072, 1082, 1089, 1086, 1085]),
     (90, [1090, 1118, 1179, 1089, 1086, 1085])]"

text \<open>\<open>d[k]\<close>: a missing key raises \<open>KeyError\<close>.\<close>

definition lookup :: "('k \<times> 'v) list \<Rightarrow> 'k \<Rightarrow> py_error + 'v" where
  "lookup d k = (case map_of d k of None \<Rightarrow> Inl KeyError | Some v \<Rightarrow> Inr v)"

text \<open>The words the function writes itself: \<open>nol\<close> (zero), \<open>minus\<close> with its space,
  and the scale words \<open>yuz\<close>, \<open>ming\<close>, \<open>million\<close>, \<open>milliard\<close>.\<close>

definition w_nol :: ustring where "w_nol = [1085, 1086, 1083]"
definition w_minus_sp :: ustring where "w_minus_sp = [1084, 1080, 1085, 1091, 1089, 32]"
definition w_yuz :: ustring where "w_yuz = [1102, 1079]"
definition w_ming :: ustring where "w_ming = [1084, 1080, 1085, 1075]"
definition w_million :: ustring where "w_million = [1084, 1080, 1083, 1083, 1080, 1086, 1085]"
definition w_milliard :: ustring where "w_milliard = [1084, 1080, 1083, 1083, 1080, 1072, 1088, 1076]"

subsection \<open>\<open>number_to_uzbek_words\<close>\<close>

text \<open>\<open>if remainder > 0: result += " " + number_to_uzbek_words(remainder)\<close>, given the
  words of the remainder.\<close>

definition add_remainder :: "ustring \<Rightarrow> int \<Rightarrow> py_error + ustring \<Rightarrow> py_error + ustring" where
  "add_remainder result remainder rest =
     (if remainder > 0 then
        (case rest of Inl e \<Rightarrow> Inl e | Inr r \<Rightarrow> Inr (result @ [32] @ r))
      else Inr result)"

text \<open>
  The function calls itself, once for each factor \<open>10^9\<close> of a large number, and the
  interpreter bounds the nesting of calls. \<open>frames\<close> is the number of frames the
  interpreter still allows when the function is called, the frame of this call
  included: with none left the call raises \<open>RecursionError\<close>, and every call the function
  makes has one frame less.
\<close>

fun number_to_uzbek_words :: "nat \<Rightarrow> int \<Rightarrow> py_error + ustring" where
  "number_to_uzbek_words 0 num = Inl RecursionError"
| "number_to_uzbek_words (Suc frames) num =
     (if num = 0 then Inr w_nol
      else if num < 0 then
        (case number_to_uzbek_words frames (abs num) of
           Inl e \<Rightarrow> Inl e
         | Inr w \<Rightarrow> Inr (w_minus_sp @ w))
      else if num \<ge> 1000000000 then
        (let billions = num div 1000000000; remainder = num mod 1000000000 in
         case number_to_uzbek_words frames billions of
           Inl e \<Rightarrow> Inl e
         | Inr b \<Rightarrow> add_remainder (b @ [32] @ w_milliard) remainder
                      (number_to_uzbek_words frames remainder))
      else if num \<ge> 1000000 then
        (let millions = num div 1000000; remainder = num mod 1000000 in
         case number_to_uzbek_words frames millions of
           Inl e \<Rightarrow> Inl e
         | Inr m \<Rightarrow> add_remainder (m @ [32] @ w_million) remainder
                      (number_to_uzbek_words frames remainder))
      else if num \<ge> 1000 then
        (let thousands = num div 1000; remainder = num mod 1000 in
         case (if thousands = 1 then Inr w_ming
               else (case number_to_uzbek_words frames thousands of
                       Inl e \<Rightarrow> Inl e
                     | Inr t \<Rightarrow> Inr (t @ [32] @ w_ming))) of
           Inl e \<Rightarrow> Inl e
         | Inr result \<Rightarrow> add_remainder result remainder
                           (number_to_uzbek_words frames remainder))
      else if num \<ge> 100 then
        (let hundreds = num div 100; remainder = num mod 100 in
         case (if hundreds = 1 then Inr w_yuz
               else (case lookup ONES hundreds of
                       Inl e \<Rightarrow> Inl e
                     | Inr h \<Rightarrow> Inr (h @ [32] @ w_yuz))) of
           Inl e \<Rightarrow> Inl e
         | Inr result \<Rightarrow> add_remainder result remainder
                           (number_to_uzbek_words frames remainder))
      else if num \<ge> 10 then
        (let tens_digit = (num div 10) * 10; ones_digit = num mod 10 in
         case lookup TENS tens_digit of
           Inl e \<Rightarrow> Inl e
         | Inr result \<Rightarrow>
             if ones_digit > 0 then
               (case lookup ONES ones_digit of
                  Inl e \<Rightarrow> Inl e
                | Inr w \<Rightarrow> Inr (result @ [32] @ w))
             else Inr result)
      else lookup ONES num)"

declare number_to_uzbek_words.simps [simp del]


section \<open>String operations of the runtime\<close>

text \<open>
  \<open>s.replace(old, new)\<close>: every non-overlapping occurrence of \<open>old\<close>, found from the
  left, is replaced; an empty \<open>old\<close> matches before every character and at the end.
\<close>

function py_replace :: "ustring \<Rightarrow> ustring \<Rightarrow> ustring \<Rightarrow> ustring" where
  "py_replace old new s =
     (if old = [] then new @ concat (map (\<lambda>c. c # new) s)
      else if s = [] then []
      else if prefix old s then new @ py_replace old new (drop (length old) s)
      else hd s # py_replace old new (tl s))"
  by pat_completeness auto
termination
  by (relation "measure (\<lambda>(old, new, s). length s)") auto

declare py_replace.simps [simp del]

text \<open>
  \<open>s.split(sep)\<close> for a non-empty separator: the pieces between the non-overlapping
  occurrences of \<open>sep\<close>, found from the left; an empty separator raises \<open>ValueError\<close>.
\<close>

function split_pieces :: "ustring \<Rightarrow> ustring \<Rightarrow> ustring list" where
  "split_pieces sep s =
     (if sep = [] \<or> s = [] then [[]]
      else if prefix sep s then [] # split_pieces sep (drop (length sep) s)
      else (case split_pieces sep (tl s) of
              p # ps \<Rightarrow> (hd s # p) # ps
            | [] \<Rightarrow> [[hd s]]))"
  by pat_completeness auto
termination
  by (relation "measure (\<lambda>(sep, s). length s)") auto

declare split_pieces.simps [simp del]

definition py_split_sep :: "ustring \<Rightarrow> ustring \<Rightarrow> py_error + ustring list" where
  "py_split_sep s sep = (if sep = [] then Inl ValueError else Inr (split_pieces sep s))"

text \<open>\<open>sep.join(xs)\<close>.\<close>

fun py_join :: "ustring \<Rightarrow> ustring list \<Rightarrow> ustring" where
  "py_join sep [] = []"
| "py_join sep [x] = x"
| "py_join sep (x # y # xs) = x @ sep @ py_join sep (y # xs)"

subsection \<open>Decimal digits\<close>

text \<open>
  The class \<open>\d\<close> of a \<open>str\<close> pattern is the Unicode category Nd, and \<open>int\<close> reads the
  same characters. Nd consists of blocks of ten consecutive code points with the values
  0 to 9; these are the first code points of the blocks of Unicode 14.0, the version of
  CPython 3.11 (U+0030 for the ASCII digits).
\<close>

definition nd_zeros :: "uchar list" where
  "nd_zeros =
    [48, 1632, 1776, 1984, 2406, 2534, 2662, 2790, 2918, 3046, 3174, 3302, 3430, 3558,
     3664, 3792, 3872, 4160, 4240, 6112, 6160, 6470, 6608, 6784, 6800, 6992, 7088, 7232,
     7248, 42528, 43216, 43264, 43472, 43504, 43600, 44016, 65296, 66720, 68912, 69734,
     69872, 69942, 70096, 70384, 70736, 70864, 71248, 71360, 71472, 71904, 72016, 72784,
     73040, 73120, 92768, 92864, 93008, 120782, 120792, 120802, 120812, 120822, 123200,
     123632, 125264, 130032]"

definition decimal :: "uchar \<Rightarrow> nat option" where
  "decimal c = (case filter (\<lambda>z. z \<le> c \<and> c < z + 10) nd_zeros of
                  [] \<Rightarrow> None
                | z # _ \<Rightarrow> Some (c - z))"

definition is_digit :: "uchar \<Rightarrow> bool" where
  "is_digit c \<longleftrightarrow> decimal c \<noteq> None"

definition digit_value :: "uchar \<Rightarrow> int" where
  "digit_value c = (case decimal c of None \<Rightarrow> 0 | Some d \<Rightarrow> int d)"

subsection \<open>What the interpreter supplies\<close>

text \<open>
  The tables of the Unicode database that are too large to write down, and two limits of
  the interpreter, are parameters of the model:
  \<^item> \<open>word_char\<close>: the class \<open>\w\<close> of a \<open>str\<close> pattern (alphanumeric characters and the
    underscore);
  \<^item> \<open>str_isupper\<close>, \<open>str_isalpha\<close>: \<open>str.isupper\<close> and \<open>str.isalpha\<close>;
  \<^item> \<open>char_lower\<close>: \<open>str.lower\<close> of one character (which may give several);
  \<^item> \<open>int_max_str_digits\<close>: the longest digit string \<open>int\<close> converts, 0 for no limit
    (\<open>sys.get_int_max_str_digits()\<close>, 4300 by default since CPython 3.11);
  \<^item> \<open>frames_left\<close>: where a callback of \<open>convert_numbers_in_text\<close> calls
    \<open>number_to_uzbek_words\<close>, the number of frames the interpreter still allows below the
    frame of that call (the recursion limit, 1000 by default, less the frames in use).
    The frame of the call itself is taken to be there, like the frame of every other
    call in the model; what a long digit run can use up is the nesting below it.
\<close>

record py_runtime =
  word_char :: "uchar \<Rightarrow> bool"
  str_isupper :: "ustring \<Rightarrow> bool"
  str_isalpha :: "ustring \<Rightarrow> bool"
  char_lower :: "uchar \<Rightarrow> ustring"
  int_max_str_digits :: nat
  frames_left :: nat

text \<open>
  \<open>int(s)\<close> for a string of decimal digits. It raises \<open>ValueError\<close> for a string that is
  empty or holds another character, or that is longer than the limit. (Signs, white
  space and underscores, which \<open>int\<close> also accepts, do not occur in the strings the
  program converts.)
\<close>

definition py_int :: "py_runtime \<Rightarrow> ustring \<Rightarrow> py_error + int" where
  "py_int R s =
     (if s = [] \<or> \<not> list_all is_digit s then Inl ValueError
      else if int_max_str_digits R \<noteq> 0 \<and> length s > int_max_str_digits R then Inl ValueError
      else Inr (foldl (\<lambda>acc c. 10 * acc + digit_value c) 0 s))"

text \<open>\<open>s.isdigit()\<close> on the strings the program tests, which hold only characters of
  \<open>\d\<close>: not empty.\<close>

definition py_isdigit :: "ustring \<Rightarrow> bool" where
  "py_isdigit s \<longleftrightarrow> s \<noteq> [] \<and> list_all is_digit s"


subsection \<open>\<open>convert_numbers_in_text\<close>\<close>

definition w_inchi_sp :: ustring where   \<comment> \<open>\<open>" inchi "\<close>, the ordinal suffix\<close>
  "w_inchi_sp = [32, 1080, 1085, 1095, 1080, 32]"

definition w_vergul :: ustring where   \<comment> \<open>\<open>"vergul"\<close>, the spoken comma\<close>
  "w_vergul = [1074, 1077, 1088, 1075, 1091, 1083]"

definition w_sp_vergul_sp :: ustring where
  "w_sp_vergul_sp = [32] @ w_vergul @ [32]"

text \<open>\<open>replace_ordinal\<close>, on group 1 of the match. The bare \<open>except\<close> catches every error,
  that of \<open>int\<close> and a \<open>RecursionError\<close> of the conversion alike, and gives back the whole
  match, the digits with their hyphen.\<close>

definition replace_ordinal :: "py_runtime \<Rightarrow> ustring \<Rightarrow> ustring" where
  "replace_ordinal R num_str =
     (case py_int R num_str of
        Inl e \<Rightarrow> num_str @ [45]
      | Inr num \<Rightarrow> (case number_to_uzbek_words (Suc (frames_left R)) num of
                      Inl e \<Rightarrow> num_str @ [45]
                    | Inr w \<Rightarrow> w @ w_inchi_sp))"

text \<open>
  A match of \<open>(\d+)-\<close> at the head of \<open>s\<close>: group 1 and what follows the hyphen. The
  repetition is greedy, and giving back digits never helps, as the character after a
  shorter run is a digit and not the hyphen.
\<close>

definition ordinal_match :: "ustring \<Rightarrow> (ustring \<times> ustring) option" where
  "ordinal_match s =
     (let d = takeWhile is_digit s; r = dropWhile is_digit s
      in if d \<noteq> [] \<and> r \<noteq> [] \<and> hd r = 45 then Some (d, tl r) else None)"

lemma ordinal_match_shorter: "ordinal_match s = Some (d, rest) \<Longrightarrow> length rest < length s"
proof -
  assume a: "ordinal_match s = Some (d, rest)"
  have "length (dropWhile is_digit s) \<le> length s" by (rule length_dropWhile_le)
  moreover from a have "dropWhile is_digit s \<noteq> []" "rest = tl (dropWhile is_digit s)"
    by (auto simp: ordinal_match_def Let_def split: if_splits)
  ultimately show ?thesis by (cases "dropWhile is_digit s") auto
qed

text \<open>\<open>re.sub(r'(\d+)-', replace_ordinal, text)\<close>: the scan tries a match at each position
  from the left, copies the character where there is none, and goes on after a match.\<close>

function sub_ordinals :: "py_runtime \<Rightarrow> ustring \<Rightarrow> ustring" where
  "sub_ordinals R [] = []"
| "sub_ordinals R (c # cs) =
     (case ordinal_match (c # cs) of
        Some (d, rest) \<Rightarrow> replace_ordinal R d @ sub_ordinals R rest
      | None \<Rightarrow> c # sub_ordinals R cs)"
  by pat_completeness auto
termination
  by (relation "measure (\<lambda>(R, s). length s)") (auto dest: ordinal_match_shorter)

text \<open>The loop of \<open>replace_number\<close> over the parts of a decimal; here \<open>int\<close> is not
  guarded, so its error leaves the function.\<close>

fun decimal_parts :: "py_runtime \<Rightarrow> ustring list \<Rightarrow> py_error + ustring list" where
  "decimal_parts R [] = Inr []"
| "decimal_parts R (part # parts) =
     (if py_isdigit (strip part) then
        (case py_int R (strip part) of
           Inl e \<Rightarrow> Inl e
         | Inr num \<Rightarrow> (case number_to_uzbek_words (Suc (frames_left R)) num of
                         Inl e \<Rightarrow> Inl e
                       | Inr w \<Rightarrow> (case decimal_parts R parts of
                                     Inl e \<Rightarrow> Inl e
                                   | Inr result \<Rightarrow> Inr (w # result))))
      else if part = [] then
        (case decimal_parts R parts of
           Inl e \<Rightarrow> Inl e
         | Inr result \<Rightarrow> Inr (w_vergul # result))
      else decimal_parts R parts)"

definition replace_number :: "py_runtime \<Rightarrow> ustring \<Rightarrow> py_error + ustring" where
  "replace_number R num_str =
     (if 46 \<in> set num_str \<or> 44 \<in> set num_str then
        (let num_str' = py_replace [44] w_sp_vergul_sp (py_replace [46] w_sp_vergul_sp num_str)
         in case py_split_sep num_str' w_sp_vergul_sp of
              Inl e \<Rightarrow> Inl e
            | Inr parts \<Rightarrow> (case decimal_parts R parts of
                              Inl e \<Rightarrow> Inl e
                            | Inr result \<Rightarrow> Inr (py_join [32] result)))
      else
        (case py_int R num_str of
           Inl e \<Rightarrow> Inr num_str
         | Inr num \<Rightarrow> (case number_to_uzbek_words (Suc (frames_left R)) num of
                         Inl e \<Rightarrow> Inr num_str
                       | Inr w \<Rightarrow> Inr w)))"

text \<open>
  A match of \<open>\d+[.,]?\d*\<close> at the head of \<open>s\<close>: the matched text and what follows it.
  Every part is greedy and what follows the first digits is optional, so the first
  attempt succeeds wherever \<open>s\<close> starts with a digit.
\<close>

definition number_match :: "ustring \<Rightarrow> (ustring \<times> ustring) option" where
  "number_match s =
     (let d1 = takeWhile is_digit s; r1 = dropWhile is_digit s
      in if d1 = [] then None
         else if r1 \<noteq> [] \<and> (hd r1 = 46 \<or> hd r1 = 44) then
           Some (d1 @ [hd r1] @ takeWhile is_digit (tl r1), dropWhile is_digit (tl r1))
         else Some (d1, r1))"

lemma number_match_shorter: "number_match s = Some (m, rest) \<Longrightarrow> length rest < length s"
proof -
  assume a: "number_match s = Some (m, rest)"
  let ?r1 = "dropWhile is_digit s"
  from a have d: "takeWhile is_digit s \<noteq> []"
    by (auto simp: number_match_def Let_def split: if_splits)
  have "length (takeWhile is_digit s) + length ?r1 = length s"
    by (metis length_append takeWhile_dropWhile_id)
  with d have l: "length ?r1 < length s" by (cases "takeWhile is_digit s") auto
  have "length (dropWhile is_digit (tl ?r1)) \<le> length (tl ?r1)" by (rule length_dropWhile_le)
  then have "length (dropWhile is_digit (tl ?r1)) \<le> length ?r1" by simp
  with a l show ?thesis
    by (auto simp: number_match_def Let_def split: if_splits)
qed

function sub_numbers :: "py_runtime \<Rightarrow> ustring \<Rightarrow> py_error + ustring" where
  "sub_numbers R [] = Inr []"
| "sub_numbers R (c # cs) =
     (case number_match (c # cs) of
        Some (m, rest) \<Rightarrow>
          (case replace_number R m of
             Inl e \<Rightarrow> Inl e
           | Inr w \<Rightarrow> (case sub_numbers R rest of
                         Inl e \<Rightarrow> Inl e
                       | Inr out \<Rightarrow> Inr (w @ out)))
      | None \<Rightarrow> (case sub_numbers R cs of
                   Inl e \<Rightarrow> Inl e
                 | Inr out \<Rightarrow> Inr (c # out)))"
  by pat_completeness auto
termination
  by (relation "measure (\<lambda>(R, s). length s)") (auto dest: number_match_shorter)

definition convert_numbers_in_text :: "py_runtime \<Rightarrow> ustring \<Rightarrow> py_error + ustring" where
  "convert_numbers_in_text R text = sub_numbers R (sub_ordinals R text)"


section \<open>AcronymSpeller: \<open>bot/acronyms.py\<close>\<close>

text \<open>The dictionaries of letter names, in the order of the source: keys are the capital
  letters, values their spoken names in Cyrillic.\<close>

definition LETTER_NAMES_CYRILLIC :: "(uchar \<times> ustring) list" where
  "LETTER_NAMES_CYRILLIC =
    [(1040, [1072]), (1041, [1073, 1077]), (1042, [1074, 1077]), (1043, [1075, 1077]),
     (1044, [1076, 1077]), (1045, [1077]), (1025, [1105]), (1046, [1078, 1077]),
     (1047, [1079, 1077]), (1048, [1080]), (1049, [1081]), (1050, [1082, 1072]),
     (1051, [1101, 1083]), (1052, [1101, 1084]), (1053, [1101, 1085]), (1054, [1086]),
     (1055, [1087, 1077]), (1056, [1101, 1088]), (1057, [1101, 1089]), (1058, [1090, 1077]),
     (1059, [1091]), (1060, [1101, 1092]), (1061, [1093, 1072]), (1202, [1203, 1072]),
     (1062, [1094, 1077]), (1063, [1095, 1077]), (1064, [1096, 1072]), (1066, [1098]),
     (1068, [1100]), (1069, [1101]), (1070, [1102]), (1071, [1103]),
     (1170, [1171, 1072]), (1178, [1179, 1072]), (1038, [1118])]"

definition LETTER_NAMES_LATIN :: "(uchar \<times> ustring) list" where
  "LETTER_NAMES_LATIN =
    [(65, [1072]), (66, [1073, 1077]), (67, [1089, 1077]), (68, [1076, 1077]),
     (69, [1077]), (70, [1101, 1092]), (71, [1075, 1077]), (72, [1072, 1096]),
     (73, [1080]), (74, [1078, 1077]), (75, [1082, 1072]), (76, [1101, 1083]),
     (77, [1101, 1084]), (78, [1101, 1085]), (79, [1086]), (80, [1087, 1077]),
     (81, [1179, 1072]), (82, [1101, 1088]), (83, [1101, 1089]), (84, [1090, 1077]),
     (85, [1091]), (86, [1074, 1077]), (87, [1076, 1072, 1073, 1083, 32, 1102]),
     (88, [1101, 1082, 1089]), (89, [1091, 1072, 1081]), (90, [1079, 1077])]"

text \<open>One step of the loop of \<open>spell_out_acronym\<close>: the name of a character.\<close>

definition letter_name :: "py_runtime \<Rightarrow> uchar \<Rightarrow> ustring" where
  "letter_name R char =
     (case map_of LETTER_NAMES_CYRILLIC char of
        Some name \<Rightarrow> name
      | None \<Rightarrow> (case map_of LETTER_NAMES_LATIN char of
                   Some name \<Rightarrow> name
                 | None \<Rightarrow> char_lower R char))"

definition spell_out_acronym :: "py_runtime \<Rightarrow> ustring \<Rightarrow> ustring" where
  "spell_out_acronym R word = py_join [45] (map (letter_name R) word)"

definition replace_acronym :: "py_runtime \<Rightarrow> ustring \<Rightarrow> ustring" where
  "replace_acronym R word =
     (if length word \<ge> 2 \<and> str_isupper R word \<and> str_isalpha R word
      then spell_out_acronym R word else word)"

text \<open>
  The character class of the pattern: \<open>A-Z\<close>, the Cyrillic range U+0410..U+042F, and
  the letters U+0401, U+049A, U+0492, U+04B2 and U+040E.
\<close>

definition acr_class :: "uchar \<Rightarrow> bool" where
  "acr_class c \<longleftrightarrow>
     (65 \<le> c \<and> c \<le> 90) \<or> (1040 \<le> c \<and> c \<le> 1071) \<or>
     c = 1025 \<or> c = 1178 \<or> c = 1170 \<or> c = 1202 \<or> c = 1038"

text \<open>\<open>\b\<close> between two neighbours, where \<open>None\<close> is the start or the end of the text:
  exactly one of them is a word character.\<close>

definition is_word :: "py_runtime \<Rightarrow> uchar option \<Rightarrow> bool" where
  "is_word R x = (case x of None \<Rightarrow> False | Some c \<Rightarrow> word_char R c)"

definition word_boundary :: "py_runtime \<Rightarrow> uchar option \<Rightarrow> uchar option \<Rightarrow> bool" where
  "word_boundary R a b \<longleftrightarrow> is_word R a \<noteq> is_word R b"

definition char_at :: "ustring \<Rightarrow> nat \<Rightarrow> uchar option" where
  "char_at s i = (if i < length s then Some (s ! i) else None)"

text \<open>
  The repetition \<open>[A-Z...]+\<close> takes the whole run of class characters and gives them
  back one at a time until a boundary follows: \<open>give_back R s n\<close> tries the lengths
  \<open>n\<close>, \<open>n - 1\<close>, ..., 1 in this order.
\<close>

fun give_back :: "py_runtime \<Rightarrow> ustring \<Rightarrow> nat \<Rightarrow> nat option" where
  "give_back R s 0 = None"
| "give_back R s (Suc j) =
     (if word_boundary R (char_at s j) (char_at s (Suc j)) then Some (Suc j)
      else give_back R s j)"

text \<open>A match of \<open>\b[A-Z...]+\b\<close> at the head of \<open>s\<close>, after the character \<open>prev\<close>: its
  length. There must be a boundary before \<open>s\<close>.\<close>

definition acr_match :: "py_runtime \<Rightarrow> uchar option \<Rightarrow> ustring \<Rightarrow> nat option" where
  "acr_match R prev s =
     (if \<not> word_boundary R prev (char_at s 0) then None
      else give_back R s (length (takeWhile acr_class s)))"

lemma give_back_range: "give_back R s n = Some j \<Longrightarrow> 0 < j \<and> j \<le> n"
  by (induction n) (auto split: if_splits)

lemma acr_match_positive: "acr_match R prev s = Some j \<Longrightarrow> 0 < j"
  by (auto simp: acr_match_def split: if_splits dest: give_back_range)

text \<open>\<open>re.sub(pattern, replace_acronym, text)\<close>, scanning \<open>s\<close> after the character \<open>prev\<close>.\<close>

function sub_acronyms :: "py_runtime \<Rightarrow> uchar option \<Rightarrow> ustring \<Rightarrow> ustring" where
  "sub_acronyms R prev [] = []"
| "sub_acronyms R prev (c # cs) =
     (case acr_match R prev (c # cs) of
        Some j \<Rightarrow> replace_acronym R (take j (c # cs))
                  @ sub_acronyms R (char_at (c # cs) (j - 1)) (drop j (c # cs))
      | None \<Rightarrow> c # sub_acronyms R (Some c) cs)"
  by pat_completeness auto
termination
  by (relation "measure (\<lambda>(R, prev, s). length s)") (auto dest: acr_match_positive)

definition process_acronyms_in_text :: "py_runtime \<Rightarrow> ustring \<Rightarrow> ustring" where
  "process_acronyms_in_text R text = sub_acronyms R None text"


section \<open>ScriptTransliterator: \<open>bot/transliterate.py\<close>, \<open>bot/text_processor.py\<close>\<close>

text \<open>The dictionary \<open>LATIN_TO_CYRILLIC\<close> in the order of the source, which is the order
  a loop over \<open>items()\<close> follows; the apostrophe of the keys is U+0027.\<close>

definition LATIN_TO_CYRILLIC :: "(ustring \<times> ustring) list" where
  "LATIN_TO_CYRILLIC =
    [([115, 104], [1096]), ([99, 104], [1095]), ([110, 103], [1085, 1075]),
     ([103, 104], [1171]), ([111, 39], [1118]), ([103, 39], [1171]),
     ([121, 111], [1105]), ([121, 97], [1103]), ([121, 101], [1077]),
     ([83, 104], [1064]), ([67, 104], [1063]), ([78, 103], [1053, 1075]),
     ([71, 104], [1170]), ([79, 39], [1038]), ([71, 39], [1170]),
     ([89, 111], [1025]), ([89, 97], [1071]), ([89, 101], [1045]),
     ([83, 72], [1064]), ([67, 72], [1063]), ([78, 71], [1053, 1043]),
     ([71, 72], [1170]), ([89, 79], [1025]), ([89, 65], [1071]), ([89, 69], [1045]),
     ([97], [1072]), ([98], [1073]), ([100], [1076]), ([101], [1077]), ([102], [1092]),
     ([103], [1075]), ([104], [1203]), ([105], [1080]), ([106], [1078]), ([107], [1082]),
     ([108], [1083]), ([109], [1084]), ([110], [1085]), ([111], [1086]), ([112], [1087]),
     ([113], [1179]), ([114], [1088]), ([115], [1089]), ([116], [1090]), ([117], [1091]),
     ([118], [1074]), ([120], [1093]), ([121], [1081]), ([122], [1079]),
     ([65], [1040]), ([66], [1041]), ([68], [1044]), ([69], [1045]), ([70], [1060]),
     ([71], [1043]), ([72], [1202]), ([73], [1048]), ([74], [1046]), ([75], [1050]),
     ([76], [1051]), ([77], [1052]), ([78], [1053]), ([79], [1054]), ([80], [1055]),
     ([81], [1178]), ([82], [1056]), ([83], [1057]), ([84], [1058]), ([85], [1059]),
     ([86], [1042]), ([88], [1061]), ([89], [1049]), ([90], [1047])]"

text \<open>The list \<open>apostrophe_variants\<close> as the source file holds it: three times U+0027,
  then U+0060, U+02BB and U+02BC.\<close>

definition apostrophe_variants :: "ustring list" where
  "apostrophe_variants = [[39], [39], [39], [96], [699], [700]]"

text \<open>The three loops of \<open>latin_to_cyrillic\<close>, each threading \<open>result\<close>.\<close>

definition normalize_apostrophes :: "ustring \<Rightarrow> ustring" where
  "normalize_apostrophes text =
     foldl (\<lambda>result variant. py_replace variant [39] result) text apostrophe_variants"

definition replace_multi :: "ustring \<Rightarrow> ustring" where
  "replace_multi text =
     foldl (\<lambda>result (latin, cyrillic).
              if length latin > 1 then py_replace latin cyrillic result else result)
       text LATIN_TO_CYRILLIC"

definition replace_single :: "ustring \<Rightarrow> ustring" where
  "replace_single text =
     foldl (\<lambda>result (latin, cyrillic).
              if length latin = 1 then py_replace latin cyrillic result else result)
       text LATIN_TO_CYRILLIC"

definition latin_to_cyrillic :: "ustring \<Rightarrow> ustring" where
  "latin_to_cyrillic text = replace_single (replace_multi (normalize_apostrophes text))"

text \<open>
  The two counts of both detection functions. A character is counted as Cyrillic when it
  lies in U+0400..U+04FF. It is counted as Latin when \<open>c.isalpha()\<close> holds and
  \<open>c.lower()\<close> lies between \<open>'a'\<close> and \<open>'z'\<close> as a string: these are the 52 ASCII letters
  and the two letters whose lower case starts with an ASCII letter, U+0130 (lower case
  \<open>i\<close> followed by U+0307) and U+212A (the Kelvin sign, lower case \<open>k\<close>).
\<close>

definition is_cyrillic :: "uchar \<Rightarrow> bool" where
  "is_cyrillic c \<longleftrightarrow> 1024 \<le> c \<and> c \<le> 1279"

definition is_latin :: "uchar \<Rightarrow> bool" where
  "is_latin c \<longleftrightarrow> (65 \<le> c \<and> c \<le> 90) \<or> (97 \<le> c \<and> c \<le> 122) \<or> c = 304 \<or> c = 8490"

definition cyrillic_count :: "ustring \<Rightarrow> nat" where
  "cyrillic_count text = length (filter is_cyrillic text)"

definition latin_count :: "ustring \<Rightarrow> nat" where
  "latin_count text = length (filter is_latin text)"

definition transliterate_if_latin :: "ustring \<Rightarrow> ustring \<times> bool" where
  "transliterate_if_latin text =
     (if latin_count text > cyrillic_count text then (latin_to_cyrillic text, True)
      else (text, False))"

definition detect_script :: "ustring \<Rightarrow> ustring" where
  "detect_script text =
     (if cyrillic_count text > latin_count text then asc ''Cyrillic''
      else if latin_count text > 0 then asc ''Latin''
      else asc ''Unknown'')"

section \<open>Normalizer: the first three steps of \<open>_generate_speech\<close> in \<open>bot/tts_engine.py\<close>\<close>

definition normalize :: "py_runtime \<Rightarrow> ustring \<Rightarrow> py_error + ustring \<times> bool" where
  "normalize R text =
     (let text_with_acronyms = process_acronyms_in_text R text in
      case convert_numbers_in_text R text_with_acronyms of
        Inl e \<Rightarrow> Inl e
      | Inr text_with_words \<Rightarrow> Inr (transliterate_if_latin text_with_words))"


section \<open>A runtime for Basic Latin and Cyrillic text\<close>

text \<open>
  For evaluating the functions on concrete texts: the classification of CPython 3.11 on
  the blocks Basic Latin (U+0000..U+007F) and Cyrillic (U+0400..U+04FF), with its default
  digit limit and with 900 frames of its default recursion limit of 1000 still free.
  Characters of other blocks are classified as neither letters nor word characters, so
  the texts evaluated with it stay within the two blocks.
\<close>

definition lc_upper :: "uchar \<Rightarrow> bool" where
  "lc_upper c \<longleftrightarrow>
     (65 \<le> c \<and> c \<le> 90) \<or> (1024 \<le> c \<and> c \<le> 1071) \<or>
     (1120 \<le> c \<and> c \<le> 1153 \<and> even c) \<or> (1162 \<le> c \<and> c \<le> 1215 \<and> even c) \<or>
     c = 1216 \<or> (1217 \<le> c \<and> c \<le> 1230 \<and> odd c) \<or> (1232 \<le> c \<and> c \<le> 1279 \<and> even c)"

definition lc_lower :: "uchar \<Rightarrow> bool" where
  "lc_lower c \<longleftrightarrow>
     (97 \<le> c \<and> c \<le> 122) \<or> (1072 \<le> c \<and> c \<le> 1119) \<or>
     (1120 \<le> c \<and> c \<le> 1153 \<and> odd c) \<or> (1162 \<le> c \<and> c \<le> 1215 \<and> odd c) \<or>
     c = 1231 \<or> (1217 \<le> c \<and> c \<le> 1230 \<and> even c) \<or> (1232 \<le> c \<and> c \<le> 1279 \<and> odd c)"

definition lc_alpha :: "uchar \<Rightarrow> bool" where
  "lc_alpha c \<longleftrightarrow>
     (65 \<le> c \<and> c \<le> 90) \<or> (97 \<le> c \<and> c \<le> 122) \<or>
     (1024 \<le> c \<and> c \<le> 1153) \<or> (1162 \<le> c \<and> c \<le> 1279)"

definition lc_to_lower :: "uchar \<Rightarrow> ustring" where
  "lc_to_lower c =
     (if 65 \<le> c \<and> c \<le> 90 then [c + 32]
      else if 1024 \<le> c \<and> c \<le> 1039 then [c + 80]
      else if 1040 \<le> c \<and> c \<le> 1071 then [c + 32]
      else if c = 1216 then [1231]
      else if lc_upper c then [c + 1]
      else [c])"

definition latin_cyrillic_runtime :: py_runtime where
  "latin_cyrillic_runtime =
     \<lparr> word_char = (\<lambda>c. lc_alpha c \<or> (48 \<le> c \<and> c \<le> 57) \<or> c = 95),
       str_isupper = (\<lambda>w. list_ex lc_upper w \<and> list_all (\<lambda>c. \<not> lc_lower c) w),
       str_isalpha = (\<lambda>w. w \<noteq> [] \<and> list_all lc_alpha w),
       char_lower = lc_to_lower,
       int_max_str_digits = 4300,
       frames_left = 900 \<rparr>"


section \<open>Vocabulary of the properties\<close>

text \<open>The characters of a text that are not white space, in order.\<close>

definition content :: "ustring \<Rightarrow> ustring" where
  "content s = filter (\<lambda>c. \<not> is_space c) s"

text \<open>
  Invariants of the two loops of the chunker, on the state \<open>(chunks, current_chunk)\<close>:
  closed chunks are trimmed and bounded, and so is the length of the open chunk.
\<close>

definition inv_w :: "nat \<Rightarrow> chunker_state \<Rightarrow> bool" where
  "inv_w M st \<longleftrightarrow> (\<forall>c\<in>set (fst st). strip c = c \<and> length c \<le> M) \<and> length (snd st) \<le> M"

definition inv_s :: "nat \<Rightarrow> chunker_state \<Rightarrow> bool" where
  "inv_s M st \<longleftrightarrow>
     (\<forall>c\<in>set (fst st). strip c = c \<and> length c < M + 2000) \<and> length (snd st) < M + 2000"

text \<open>
  What the acronym scan needs of the runtime, all of them facts of the Unicode database:
  the characters of the pattern's class are word characters, a non-empty string of them
  is upper case and alphabetic, and the two class letters without an entry in the
  tables of letter names, U+0429 and U+042B, have the lower case U+0449 and U+044B.
\<close>

definition acronym_runtime :: "py_runtime \<Rightarrow> bool" where
  "acronym_runtime R \<longleftrightarrow>
     (\<forall>c. acr_class c \<longrightarrow> word_char R c) \<and>
     (\<forall>w. w \<noteq> [] \<and> list_all acr_class w \<longrightarrow> str_isupper R w \<and> str_isalpha R w) \<and>
     char_lower R 1065 = [1097] \<and> char_lower R 1067 = [1099]"

text \<open>
  The acronym rule in words, for comparison with the scan: cut the text into its maximal
  runs of word characters and of other characters, spell each run of two or more class
  letters, and keep every other run.
\<close>

function word_runs :: "py_runtime \<Rightarrow> ustring \<Rightarrow> ustring list" where
  "word_runs R [] = []"
| "word_runs R (c # cs) =
     (c # takeWhile (\<lambda>x. word_char R x = word_char R c) cs)
     # word_runs R (dropWhile (\<lambda>x. word_char R x = word_char R c) cs)"
  by pat_completeness auto
termination
  by (relation "measure (\<lambda>(R, s). length s)") (auto simp: le_imp_less_Suc length_dropWhile_le)

definition spell_run :: "py_runtime \<Rightarrow> ustring \<Rightarrow> ustring" where
  "spell_run R run =
     (if 2 \<le> length run \<and> list_all acr_class run then spell_out_acronym R run else run)"

definition spell_word_runs :: "py_runtime \<Rightarrow> ustring \<Rightarrow> ustring" where
  "spell_word_runs R text = concat (map (spell_run R) (word_runs R text))"

text \<open>The characters of the words the converters write: the space and the Cyrillic
  letters from U+0430 on.\<close>

definition plain_char :: "uchar \<Rightarrow> bool" where
  "plain_char c \<longleftrightarrow> c = 32 \<or> (1072 \<le> c \<and> c \<le> 1279)"

text \<open>
  The number of decimal digits of a text, and whether the runtime converts a string of
  that many digits: \<open>int\<close> accepts the string, and the frames left are enough for the
  nesting of \<open>number_to_uzbek_words\<close>, one level for every nine digits and three more.
\<close>

definition digit_count :: "ustring \<Rightarrow> nat" where
  "digit_count s = length (filter is_digit s)"

definition within_limit :: "py_runtime \<Rightarrow> nat \<Rightarrow> bool" where
  "within_limit R n \<longleftrightarrow>
     (int_max_str_digits R = 0 \<or> n \<le> int_max_str_digits R) \<and> n div 9 + 3 \<le> frames_left R"

definition ascii_letter :: "uchar \<Rightarrow> bool" where
  "ascii_letter c \<longleftrightarrow> (65 \<le> c \<and> c \<le> 90) \<or> (97 \<le> c \<and> c \<le> 122)"

section \<open>Facts about the string operations\<close>

lemma strip_Nil_iff: "strip s = [] \<longleftrightarrow> (\<forall>c\<in>set s. is_space c)"
proof
  assume "strip s = []"
  then have "dropWhile is_space (rev (dropWhile is_space s)) = []"
    by (simp only: strip_def rev_is_Nil_conv)
  then have "\<forall>c\<in>set (dropWhile is_space s). is_space c"
    by (simp only: dropWhile_eq_Nil_conv set_rev)
  then have "dropWhile is_space (dropWhile is_space s) = []"
    by (simp only: dropWhile_eq_Nil_conv)
  then have "dropWhile is_space s = []" by (simp only: dropWhile_idem)
  then show "\<forall>c\<in>set s. is_space c" by (simp only: dropWhile_eq_Nil_conv)
next
  assume "\<forall>c\<in>set s. is_space c"
  then have "dropWhile is_space s = []" by (simp only: dropWhile_eq_Nil_conv)
  then show "strip s = []" by (simp only: strip_def rev.simps dropWhile.simps)
qed

lemma length_strip_le: "length (strip s) \<le> length s"
proof -
  have "length (strip s) \<le> length (dropWhile is_space s)"
    unfolding strip_def using length_dropWhile_le [of is_space "rev (dropWhile is_space s)"] by simp
  also have "\<dots> \<le> length s" by (rule length_dropWhile_le)
  finally show ?thesis .
qed

lemma strip_ends: "s \<noteq> [] \<Longrightarrow> \<not> is_space (hd s) \<Longrightarrow> \<not> is_space (last s) \<Longrightarrow> strip s = s"
proof -
  assume a: "s \<noteq> []" "\<not> is_space (hd s)" "\<not> is_space (last s)"
  then have 1: "dropWhile is_space s = s" by (simp add: dropWhile_eq_self_iff)
  from a have "hd (rev s) = last s" by (simp add: hd_rev)
  with a have 2: "dropWhile is_space (rev s) = rev s" by (simp add: dropWhile_eq_self_iff)
  show ?thesis by (simp only: strip_def 1 2 rev_rev_ident)
qed

lemma strip_no_space: "\<forall>c\<in>set s. \<not> is_space c \<Longrightarrow> strip s = s"
proof (cases "s = []")
  case True then show ?thesis by (simp add: strip_def)
next
  case False
  assume "\<forall>c\<in>set s. \<not> is_space c"
  with False show ?thesis by (intro strip_ends) simp_all
qed

lemma strip_props:
  assumes "strip s \<noteq> []"
  shows "\<not> is_space (hd (strip s)) \<and> \<not> is_space (last (strip s))"
proof -
  define d where "d = dropWhile is_space s"
  define e where "e = dropWhile is_space (rev d)"
  have s: "strip s = rev e" by (simp only: strip_def d_def e_def)
  with assms have e: "e \<noteq> []" by simp
  then have "\<not> is_space (hd e)" unfolding e_def by (rule hd_dropWhile)
  then have 1: "\<not> is_space (last (strip s))" using e by (simp add: s last_rev)
  have "rev d = takeWhile is_space (rev d) @ e" by (simp add: e_def)
  then have "rev (rev d) = rev (takeWhile is_space (rev d) @ e)" by (simp only:)
  then have dd: "d = rev e @ rev (takeWhile is_space (rev d))" by (simp only: rev_rev_ident rev_append)
  with e have hd: "hd d = hd (rev e)" by (metis hd_append2 rev_is_Nil_conv)
  from dd e have "d \<noteq> []" by auto
  then have "\<not> is_space (hd d)" unfolding d_def by (rule hd_dropWhile)
  with hd 1 show ?thesis by (simp add: s)
qed

lemma strip_strip: "strip (strip s) = strip s"
proof (cases "strip s = []")
  case True
  have "strip [] = []" by (simp add: strip_def)
  with True show ?thesis by simp
next
  case False
  then show ?thesis using strip_props [OF False] by (intro strip_ends) simp_all
qed

lemma py_split_Nil: "\<forall>c\<in>set s. is_space c \<Longrightarrow> py_split s = []"
proof -
  assume "\<forall>c\<in>set s. is_space c"
  then have "dropWhile is_space s = []" by simp
  then show ?thesis by (subst py_split.simps) (simp only: list.case)
qed

lemma py_split_word:
  "s \<noteq> [] \<Longrightarrow> \<forall>c\<in>set s. \<not> is_space c \<Longrightarrow> py_split s = [s]"
proof -
  assume a: "s \<noteq> []" "\<forall>c\<in>set s. \<not> is_space c"
  then obtain c r where s: "s = c # r" by (cases s) auto
  with a have d: "dropWhile is_space (c # r) = c # r" by simp
  from a s have t: "takeWhile (\<lambda>x. \<not> is_space x) (c # r) = c # r" by simp
  from a s have e: "dropWhile (\<lambda>x. \<not> is_space x) r = []" by simp
  have n: "py_split [] = []" by (rule py_split_Nil) simp
  show ?thesis
    by (subst py_split.simps) (simp only: d t e n list.case s)
qed


lemma re_split_plain: "\<forall>c\<in>set s. \<not> is_term c \<Longrightarrow> re_split s = [s]"
proof (induction s)
  case Nil
  show ?case by simp
next
  case (Cons c cs)
  then have "sep_match (c # cs) = None" by (simp add: sep_match_def)
  with Cons show ?case by simp
qed

lemma chop_pieces:
  "p \<in> set (chop M w) \<Longrightarrow> p \<noteq> [] \<and> length p \<le> M \<and> set p \<subseteq> set w"
proof (induction M w rule: chop.induct)
  case (1 M w)
  show ?case
  proof (cases "M = 0 \<or> w = []")
    case True
    with "1.prems" show ?thesis by (subst (asm) chop.simps) simp
  next
    case False
    with "1.prems" have "p = take M w \<or> p \<in> set (chop M (drop M w))"
      by (subst (asm) chop.simps) simp
    then show ?thesis
    proof
      assume p: "p = take M w"
      have "set (take M w) \<subseteq> set w" by (rule set_take_subset)
      with p False show ?thesis by simp
    next
      assume "p \<in> set (chop M (drop M w))"
      with "1.IH" [OF False] have "p \<noteq> [] \<and> length p \<le> M \<and> set p \<subseteq> set (drop M w)" by simp
      moreover have "set (drop M w) \<subseteq> set w" by (rule set_drop_subset)
      ultimately show ?thesis by blast
    qed
  qed
qed


lemma py_split_words:
  "w \<in> set (py_split s) \<Longrightarrow> w \<noteq> [] \<and> (\<forall>c\<in>set w. \<not> is_space c)"
proof (induction s rule: py_split.induct)
  case (1 s)
  show ?case
  proof (cases "dropWhile is_space s")
    case Nil
    with "1.prems" show ?thesis by (subst (asm) py_split.simps) (simp only: list.case set_simps empty_iff)
  next
    case (Cons c r)
    have "\<not> is_space (hd (dropWhile is_space s))" by (rule hd_dropWhile) (simp only: Cons, simp)
    then have c: "\<not> is_space c" by (simp add: Cons)
    from "1.prems" have "w \<in> set (takeWhile (\<lambda>x. \<not> is_space x) (c # r)
        # py_split (dropWhile (\<lambda>x. \<not> is_space x) r))"
      by (subst (asm) py_split.simps) (simp only: Cons list.case)
    then have "w = takeWhile (\<lambda>x. \<not> is_space x) (c # r)
        \<or> w \<in> set (py_split (dropWhile (\<lambda>x. \<not> is_space x) r))"
      by simp
    then show ?thesis
    proof
      assume w: "w = takeWhile (\<lambda>x. \<not> is_space x) (c # r)"
      have "takeWhile (\<lambda>x. \<not> is_space x) (c # r) = c # takeWhile (\<lambda>x. \<not> is_space x) r"
        using c by simp
      then have "w \<noteq> []" unfolding w by simp
      moreover have "\<forall>x\<in>set w. \<not> is_space x" unfolding w by (blast dest: set_takeWhileD)
      ultimately show ?thesis by simp
    next
      assume "w \<in> set (py_split (dropWhile (\<lambda>x. \<not> is_space x) r))"
      then show ?thesis by (rule "1.IH" [OF Cons])
    qed
  qed
qed

section \<open>The chunker: invariants and evaluations\<close>

lemma flush_cases:
  "c \<in> set (flush st) \<Longrightarrow> c \<in> set (fst st) \<or> c = strip (snd st)"
  by (cases st) (auto simp: flush_def split: if_splits)

lemma flush_inv_w:
  assumes "inv_w M st" "c \<in> set (flush st)"
  shows "strip c = c \<and> length c \<le> M"
proof -
  from assms(2) have "c \<in> set (fst st) \<or> c = strip (snd st)" by (rule flush_cases)
  then show ?thesis
  proof
    assume "c \<in> set (fst st)"
    with assms(1) show ?thesis by (simp add: inv_w_def)
  next
    assume c: "c = strip (snd st)"
    have "length (strip (snd st)) \<le> length (snd st)" by (rule length_strip_le)
    with assms(1) c show ?thesis by (simp add: inv_w_def strip_strip)
  qed
qed

lemma chop_inv_w:
  assumes "\<forall>x\<in>set w. \<not> is_space x" "c \<in> set (chop M w)"
  shows "strip c = c \<and> length c \<le> M"
proof -
  from chop_pieces [OF assms(2)] have p: "length c \<le> M" "set c \<subseteq> set w" by simp_all
  with assms(1) have "\<forall>x\<in>set c. \<not> is_space x" by blast
  then have "strip c = c" by (rule strip_no_space)
  with p show ?thesis by simp
qed

lemma words_loop_inv:
  assumes "0 < M"
  shows "inv_w M st \<Longrightarrow> \<forall>w\<in>set ws. \<forall>x\<in>set w. \<not> is_space x \<Longrightarrow>
         \<exists>st'. words_loop M st ws = Inr st' \<and> inv_w M st'"
proof (induction ws arbitrary: st)
  case Nil
  then show ?case by simp
next
  case (Cons word ws)
  from Cons.prems(2) have ws: "\<forall>w\<in>set ws. \<forall>x\<in>set w. \<not> is_space x"
    and w: "\<forall>x\<in>set word. \<not> is_space x" by simp_all
  consider (long) "length word > M"
    | (full) "\<not> length word > M" "length (snd st) + length word + 1 > M"
    | (fits) "\<not> length word > M" "\<not> length (snd st) + length word + 1 > M"
    by blast
  then show ?case
  proof cases
    case long
    have "inv_w M (flush st @ chop M word, [])"
      unfolding inv_w_def using flush_inv_w [OF Cons.prems(1)] chop_inv_w [OF w]
      by auto
    from Cons.IH [OF this ws] long assms show ?thesis by simp
  next
    case full
    have "inv_w M (flush st, word)"
      unfolding inv_w_def using flush_inv_w [OF Cons.prems(1)] full(1) by auto
    from Cons.IH [OF this ws] full show ?thesis by simp
  next
    case fits
    have "inv_w M (fst st, if snd st \<noteq> [] then snd st @ [32] @ word else word)"
      using Cons.prems(1) fits by (auto simp: inv_w_def)
    from Cons.IH [OF this ws] fits show ?thesis by simp
  qed
qed

lemma split_by_words_ok:
  assumes "0 < M"
  shows "\<exists>cs. split_by_words s M = Inr cs \<and> (\<forall>c\<in>set cs. strip c = c \<and> length c \<le> M)"
proof -
  have i: "inv_w M ([], [])" by (simp add: inv_w_def)
  have w: "\<forall>w\<in>set (py_split s). \<forall>x\<in>set w. \<not> is_space x"
    using py_split_words by blast
  from words_loop_inv [OF assms i w] obtain st' where
    st: "words_loop M ([], []) (py_split s) = Inr st'" "inv_w M st'" by blast
  then have "split_by_words s M = Inr (flush st')" by (simp add: split_by_words_def)
  with flush_inv_w [OF st(2)] show ?thesis by blast
qed

lemma sentence_loop_inv:
  assumes "0 < M"
  shows "inv_s M st \<Longrightarrow> \<exists>st'. sentence_loop M st ss = Inr st' \<and> inv_s M st'"
proof (induction ss arbitrary: st)
  case Nil
  then show ?case by simp
next
  case (Cons sentence ss)
  consider (long) "length sentence > M"
    | (close) "\<not> length sentence > M" "length (snd st) + length sentence > M"
        "snd st \<noteq> [] \<and> length (snd st) \<ge> 2000"
    | (floor) "\<not> length sentence > M" "length (snd st) + length sentence > M"
        "\<not> (snd st \<noteq> [] \<and> length (snd st) \<ge> 2000)"
    | (fits) "\<not> length sentence > M" "\<not> length (snd st) + length sentence > M"
    by blast
  then show ?case
  proof cases
    case long
    from split_by_words_ok [OF assms, of sentence] obtain cs where
      cs: "split_by_words sentence M = Inr cs" "\<forall>c\<in>set cs. strip c = c \<and> length c \<le> M"
      by blast
    have "inv_s M (fst st @ cs, [])"
      using Cons.prems cs(2) by (fastforce simp: inv_s_def)
    from Cons.IH [OF this] long cs(1) show ?thesis by simp
  next
    case close
    have "length (strip (snd st)) \<le> length (snd st)" by (rule length_strip_le)
    then have "inv_s M (fst st @ [strip (snd st)], sentence)"
      using Cons.prems close(1) by (auto simp: inv_s_def strip_strip)
    from Cons.IH [OF this] close show ?thesis by simp
  next
    case floor
    then have "length (snd st) < 2000" by auto
    then have "inv_s M (fst st, snd st @ sentence)"
      using Cons.prems floor(1) by (auto simp: inv_s_def)
    from Cons.IH [OF this] floor show ?thesis by auto
  next
    case fits
    then have "inv_s M (fst st, snd st @ sentence)"
      using Cons.prems by (auto simp: inv_s_def)
    from Cons.IH [OF this] fits show ?thesis by simp
  qed
qed

lemma re_split_nonempty: "re_split s \<noteq> []"
  by (induction s rule: re_split.induct) (auto split: option.splits list.splits)

lemma re_split_prefix:
  "\<forall>c\<in>set p. \<not> is_term c \<Longrightarrow> re_split (p @ s) = (p @ hd (re_split s)) # tl (re_split s)"
proof (induction p)
  case Nil
  show ?case using re_split_nonempty [of s] by simp
next
  case (Cons c p)
  then have "sep_match (c # p @ s) = None" by (simp add: sep_match_def)
  with Cons show ?case by simp
qed

lemma strip_Nil [simp]: "strip [] = []"
  by (simp add: strip_def)

lemma split_text_long:
  assumes "M = nat (max 2000 ml)" "strip text \<noteq> []" "length text > M"
    "sentence_loop M ([], []) (reconstruct (re_split text)) = Inr st"
  shows "split_text text ml = Inr (filter (\<lambda>chunk. strip chunk \<noteq> []) (flush st))"
proof -
  have m: "nat (if ml < 2000 then 2000 else ml) = M" using assms(1) by (simp add: max_def)
  from assms(2) have t: "text \<noteq> []" by auto
  show ?thesis
    unfolding split_text_def m Let_def using t assms(2,3,4) by simp
qed

lemma chop_eval: "chop 2000 (replicate 2001 a) = [replicate 2000 a, [a]]"
proof -
  have 1: "chop 2000 (replicate 2001 a) = replicate 2000 a # chop 2000 (replicate 1 a)"
    by (subst chop.simps) simp
  have 2: "chop 2000 (replicate 1 a) = [a] # chop 2000 []"
    by (subst chop.simps) simp
  have 3: "chop 2000 [] = []"
    by (subst chop.simps) simp
  show ?thesis by (simp only: 1 2 3)
qed

lemma split_by_words_long_word:
  "split_by_words (replicate 2001 97) 2000 = Inr [replicate 2000 97, [97]]"
proof -
  have ps: "py_split (replicate 2001 97) = [replicate 2001 97]"
    by (rule py_split_word) (simp_all add: is_space_def)
  show ?thesis by (simp add: split_by_words_def ps flush_def chop_eval)
qed

lemma sentences_long_word:
  "reconstruct (re_split (asc ''Hi. '' @ replicate 2001 97)) = [asc ''Hi. '', replicate 2001 97]"
proof -
  let ?R = "replicate 2001 (97::nat)"
  have a: "asc ''Hi. '' = [72, 105, 46, 32]" by (simp add: asc_def)
  have R: "re_split ?R = [?R]" by (rule re_split_plain) (simp add: is_term_def)
  have m1: "sep_match (72 # 105 # 46 # 32 # ?R) = None" by (simp add: sep_match_def is_term_def)
  have m2: "sep_match (105 # 46 # 32 # ?R) = None" by (simp add: sep_match_def is_term_def)
  have m3: "sep_match (46 # 32 # ?R) = Some ([46, 32], ?R)"
    by (simp add: sep_match_def is_term_def is_space_def)
  have r3: "re_split (46 # 32 # ?R) = [[], [46, 32], ?R]"
    by (subst re_split.simps) (simp add: m3 R del: re_split.simps)
  have r2: "re_split (105 # 46 # 32 # ?R) = [[105], [46, 32], ?R]"
    by (subst re_split.simps) (simp add: m2 r3 del: re_split.simps)
  have rs: "re_split (72 # 105 # 46 # 32 # ?R) = [[72, 105], [46, 32], ?R]"
    by (subst re_split.simps) (simp add: m1 r2 del: re_split.simps)
  have "reconstruct (re_split (72 # 105 # 46 # 32 # ?R)) = [[72, 105, 46, 32], ?R]"
    unfolding rs by simp
  then show ?thesis by (simp add: a)
qed

lemma eval_long_word:
  "split_text (asc ''Hi. '' @ replicate 2001 97) 2000 = Inr [replicate 2000 97, [97]]"
proof -
  let ?R = "replicate 2001 (97::nat)"
  have a: "asc ''Hi. '' = [72, 105, 46, 32]" by (simp add: asc_def)
  have sl: "sentence_loop 2000 ([], []) [asc ''Hi. '', ?R] = Inr ([replicate 2000 97, [97]], [])"
    by (simp add: a split_by_words_long_word)
  have s1: "strip (replicate 2000 97) \<noteq> []" by (simp add: strip_Nil_iff is_space_def)
  have s2: "strip [97] \<noteq> []" by (simp add: strip_Nil_iff is_space_def)
  have s3: "strip (asc ''Hi. '' @ ?R) \<noteq> []" by (simp add: a strip_Nil_iff is_space_def)
  have l: "2000 < length (asc ''Hi. '' @ ?R)" by (simp add: a)
  have "split_text (asc ''Hi. '' @ ?R) 2000
      = Inr (filter (\<lambda>chunk. strip chunk \<noteq> []) (flush ([replicate 2000 97, [97]], [])))"
    by (rule split_text_long [where M = 2000]) (simp_all only: s3 sentences_long_word sl l, simp_all)
  then show ?thesis
    by (simp add: s1 s2 flush_def)
qed

lemma sentences_floor_rule:
  "reconstruct (re_split (replicate 1997 97 @ asc ''. bb''))
     = [replicate 1997 97 @ asc ''. '', asc ''bb'']"
proof -
  let ?R = "replicate 1997 (97::nat)"
  have a: "asc ''. bb'' = [46, 32, 98, 98]" "asc ''. '' = [46, 32]" "asc ''bb'' = [98, 98]"
    by (simp_all add: asc_def)
  have m: "sep_match [46, 32, 98, 98] = Some ([46, 32], [98, 98])"
    by (simp add: sep_match_def is_term_def is_space_def)
  have b: "re_split [98, 98] = [[98, 98]]" by (rule re_split_plain) (simp add: is_term_def)
  have t: "re_split [46, 32, 98, 98] = [[], [46, 32], [98, 98]]"
    by (subst re_split.simps) (simp add: m b del: re_split.simps)
  have rs: "re_split (?R @ [46, 32, 98, 98]) = [?R, [46, 32], [98, 98]]"
    by (subst re_split_prefix) (simp_all add: is_term_def t del: re_split.simps)
  show ?thesis unfolding a rs by simp
qed

lemma eval_floor_rule:
  "split_text (replicate 1997 97 @ asc ''. bb'') 2000 = Inr [replicate 1997 97 @ asc ''. bb'']"
proof -
  let ?R = "replicate 1997 (97::nat)"
  have a: "asc ''. bb'' = [46, 32, 98, 98]" "asc ''. '' = [46, 32]" "asc ''bb'' = [98, 98]"
    by (simp_all add: asc_def)
  have sl: "sentence_loop 2000 ([], []) [?R @ [46, 32], [98, 98]] = Inr ([], ?R @ [46, 32, 98, 98])"
    by simp
  have st: "strip (?R @ [46, 32, 98, 98]) = ?R @ [46, 32, 98, 98]"
    by (rule strip_ends) (simp_all add: is_space_def)
  have ne: "strip (?R @ [46, 32, 98, 98]) \<noteq> []" unfolding st by simp
  have rc: "reconstruct (re_split (?R @ [46, 32, 98, 98])) = [?R @ [46, 32], [98, 98]]"
    using sentences_floor_rule unfolding a .
  have "split_text (?R @ [46, 32, 98, 98]) 2000
      = Inr (filter (\<lambda>chunk. strip chunk \<noteq> []) (flush ([], ?R @ [46, 32, 98, 98])))"
    by (rule split_text_long [where M = 2000]) (simp_all only: ne rc sl, simp_all)
  then show ?thesis
    unfolding a flush_def by (simp add: st strip_strip del: append.simps)
qed

lemma eval_untrimmed: "split_text (asc '' a'') 3000 = Inr [asc '' a'']"
  by (simp add: split_text_def asc_def strip_Nil_iff is_space_def)

lemma eval_blank: "split_text (asc ''   '') 3000 = Inr []"
  by (simp add: split_text_def asc_def strip_Nil_iff is_space_def)

lemma flush_inv_s:
  assumes "inv_s M st" "c \<in> set (flush st)"
  shows "strip c = c \<and> length c < M + 2000"
proof -
  from assms(2) have "c \<in> set (fst st) \<or> c = strip (snd st)" by (rule flush_cases)
  then show ?thesis
  proof
    assume "c \<in> set (fst st)"
    with assms(1) show ?thesis by (simp add: inv_s_def)
  next
    assume c: "c = strip (snd st)"
    have "length (strip (snd st)) \<le> length (snd st)" by (rule length_strip_le)
    with assms(1) c show ?thesis by (simp add: inv_s_def strip_strip)
  qed
qed

lemma split_text_blank: "strip text = [] \<Longrightarrow> split_text text ml = Inr []"
  by (simp add: split_text_def)

lemma split_text_short:
  "strip text \<noteq> [] \<Longrightarrow> int (length text) \<le> max 2000 ml \<Longrightarrow> split_text text ml = Inr [text]"
  by (auto simp: split_text_def Let_def max_def)

lemma split_text_chunks:
  assumes "strip text \<noteq> []" "int (length text) > max 2000 ml"
  shows "\<exists>chunks. split_text text ml = Inr chunks \<and>
           (\<forall>c\<in>set chunks. strip c \<noteq> [] \<and> strip c = c \<and> int (length c) < max 2000 ml + 2000)"
proof -
  define M where "M = nat (max 2000 ml)"
  have M: "0 < M" "int M = max 2000 ml" by (simp_all add: M_def)
  have "inv_s M ([], [])" by (simp add: inv_s_def)
  from sentence_loop_inv [OF M(1) this] obtain st where
    st: "sentence_loop M ([], []) (reconstruct (re_split text)) = Inr st" "inv_s M st" by blast
  from assms(2) M(2) have "length text > M" by linarith
  from split_text_long [OF M_def assms(1) this st(1)]
  have r: "split_text text ml = Inr (filter (\<lambda>chunk. strip chunk \<noteq> []) (flush st))" .
  have "\<forall>c\<in>set (filter (\<lambda>chunk. strip chunk \<noteq> []) (flush st)).
          strip c \<noteq> [] \<and> strip c = c \<and> int (length c) < max 2000 ml + 2000"
  proof
    fix c assume "c \<in> set (filter (\<lambda>chunk. strip chunk \<noteq> []) (flush st))"
    then have c: "c \<in> set (flush st)" "strip c \<noteq> []" by simp_all
    from flush_inv_s [OF st(2) c(1)] have "strip c = c" "length c < M + 2000" by simp_all
    with c(2) M(2) show "strip c \<noteq> [] \<and> strip c = c \<and> int (length c) < max 2000 ml + 2000"
      by simp
  qed
  with r show ?thesis by blast
qed


section \<open>Number words: branches, results and frames\<close>

lemma nuw_zero: "number_to_uzbek_words (Suc k) 0 = Inr w_nol"
  by (simp add: number_to_uzbek_words.simps)

lemma nuw_neg:
  "n < 0 \<Longrightarrow> number_to_uzbek_words (Suc k) n =
     (case number_to_uzbek_words k (abs n) of Inl e \<Rightarrow> Inl e | Inr w \<Rightarrow> Inr (w_minus_sp @ w))"
  by (simp add: number_to_uzbek_words.simps)

lemma nuw_bil:
  "1000000000 \<le> n \<Longrightarrow> number_to_uzbek_words (Suc k) n =
     (case number_to_uzbek_words k (n div 1000000000) of
        Inl e \<Rightarrow> Inl e
      | Inr b \<Rightarrow> add_remainder (b @ [32] @ w_milliard) (n mod 1000000000)
                   (number_to_uzbek_words k (n mod 1000000000)))"
  by (simp add: number_to_uzbek_words.simps Let_def)

lemma nuw_mil:
  "1000000 \<le> n \<Longrightarrow> n < 1000000000 \<Longrightarrow> number_to_uzbek_words (Suc k) n =
     (case number_to_uzbek_words k (n div 1000000) of
        Inl e \<Rightarrow> Inl e
      | Inr m \<Rightarrow> add_remainder (m @ [32] @ w_million) (n mod 1000000)
                   (number_to_uzbek_words k (n mod 1000000)))"
  by (simp add: number_to_uzbek_words.simps Let_def)

lemma nuw_tho:
  "1000 \<le> n \<Longrightarrow> n < 1000000 \<Longrightarrow> number_to_uzbek_words (Suc k) n =
     (case (if n div 1000 = 1 then Inr w_ming
            else (case number_to_uzbek_words k (n div 1000) of
                    Inl e \<Rightarrow> Inl e
                  | Inr t \<Rightarrow> Inr (t @ [32] @ w_ming))) of
        Inl e \<Rightarrow> Inl e
      | Inr result \<Rightarrow> add_remainder result (n mod 1000) (number_to_uzbek_words k (n mod 1000)))"
  by (simp add: number_to_uzbek_words.simps Let_def)

lemma nuw_hun:
  "100 \<le> n \<Longrightarrow> n < 1000 \<Longrightarrow> number_to_uzbek_words (Suc k) n =
     (case (if n div 100 = 1 then Inr w_yuz
            else (case lookup ONES (n div 100) of
                    Inl e \<Rightarrow> Inl e
                  | Inr h \<Rightarrow> Inr (h @ [32] @ w_yuz))) of
        Inl e \<Rightarrow> Inl e
      | Inr result \<Rightarrow> add_remainder result (n mod 100) (number_to_uzbek_words k (n mod 100)))"
  by (simp add: number_to_uzbek_words.simps Let_def)

lemma nuw_ten:
  "10 \<le> n \<Longrightarrow> n < 100 \<Longrightarrow> number_to_uzbek_words (Suc k) n =
     (case lookup TENS (n div 10 * 10) of
        Inl e \<Rightarrow> Inl e
      | Inr result \<Rightarrow>
          if n mod 10 > 0 then
            (case lookup ONES (n mod 10) of
               Inl e \<Rightarrow> Inl e
             | Inr w \<Rightarrow> Inr (result @ [32] @ w))
          else Inr result)"
  by (simp add: number_to_uzbek_words.simps Let_def)

lemma nuw_one:
  "0 < n \<Longrightarrow> n < 10 \<Longrightarrow> number_to_uzbek_words (Suc k) n = lookup ONES n"
  by (simp add: number_to_uzbek_words.simps)

lemma lookup_plain:
  "lookup d k = Inr w \<Longrightarrow> \<forall>(k, v)\<in>set d. list_all plain_char v \<Longrightarrow> list_all plain_char w"
  by (auto simp: lookup_def split: option.splits dest!: map_of_SomeD)

lemma lexicon_plain:
  "\<forall>(k, v)\<in>set ONES. list_all plain_char v" "\<forall>(k, v)\<in>set TENS. list_all plain_char v"
  by (simp_all add: ONES_def TENS_def plain_char_def)

lemma scale_words_plain:
  "list_all plain_char w_nol" "list_all plain_char w_minus_sp" "list_all plain_char w_yuz"
  "list_all plain_char w_ming" "list_all plain_char w_million" "list_all plain_char w_milliard"
  "plain_char 32"
  by (simp_all add: w_nol_def w_minus_sp_def w_yuz_def w_ming_def w_million_def w_milliard_def
      plain_char_def)

lemma add_remainder_plain:
  "add_remainder res r rest = Inr w \<Longrightarrow> list_all plain_char res \<Longrightarrow>
   (\<And>x. rest = Inr x \<Longrightarrow> list_all plain_char x) \<Longrightarrow> list_all plain_char w"
  by (auto simp: add_remainder_def scale_words_plain split: if_splits sum.splits)

text \<open>Whatever the function returns consists of spaces and Cyrillic letters.\<close>

lemma number_words_plain:
  "number_to_uzbek_words k n = Inr w \<Longrightarrow> list_all plain_char w"
proof (induction k arbitrary: n w)
  case 0
  then show ?case by (simp add: number_to_uzbek_words.simps)
next
  case (Suc k)
  note sw = scale_words_plain and lx = lexicon_plain
  note IH = Suc.IH
  consider (zero) "n = 0" | (neg) "n < 0" | (bil) "n \<ge> 1000000000"
    | (mil) "1000000 \<le> n" "n < 1000000000"
    | (tho) "1000 \<le> n" "n < 1000000"
    | (hun) "100 \<le> n" "n < 1000"
    | (ten) "10 \<le> n" "n < 100"
    | (one) "0 < n" "n < 10"
    by linarith
  then show ?case
  proof cases
    case zero
    with Suc.prems show ?thesis by (simp add: nuw_zero sw)
  next
    case neg
    with Suc.prems IH show ?thesis by (auto simp: nuw_neg sw split: sum.splits)
  next
    case bil
    from Suc.prems obtain b where b: "number_to_uzbek_words k (n div 1000000000) = Inr b"
      and a: "add_remainder (b @ [32] @ w_milliard) (n mod 1000000000)
                (number_to_uzbek_words k (n mod 1000000000)) = Inr w"
      unfolding nuw_bil [OF bil] by (auto split: sum.splits)
    from IH [OF b] have "list_all plain_char (b @ [32] @ w_milliard)" by (simp add: sw)
    from add_remainder_plain [OF a this] IH show ?thesis by blast
  next
    case mil
    from Suc.prems obtain b where b: "number_to_uzbek_words k (n div 1000000) = Inr b"
      and a: "add_remainder (b @ [32] @ w_million) (n mod 1000000)
                (number_to_uzbek_words k (n mod 1000000)) = Inr w"
      unfolding nuw_mil [OF mil] by (auto split: sum.splits)
    from IH [OF b] have "list_all plain_char (b @ [32] @ w_million)" by (simp add: sw)
    from add_remainder_plain [OF a this] IH show ?thesis by blast
  next
    case tho
    from Suc.prems obtain result where r: "(if n div 1000 = 1 then Inr w_ming
            else (case number_to_uzbek_words k (n div 1000) of
                    Inl e \<Rightarrow> Inl e
                  | Inr t \<Rightarrow> Inr (t @ [32] @ w_ming))) = Inr result"
      and a: "add_remainder result (n mod 1000) (number_to_uzbek_words k (n mod 1000)) = Inr w"
      unfolding nuw_tho [OF tho] by (auto split: sum.splits)
    from r IH have "list_all plain_char result"
      by (auto simp: sw split: if_splits sum.splits)
    from add_remainder_plain [OF a this] IH show ?thesis by blast
  next
    case hun
    from Suc.prems obtain result where r: "(if n div 100 = 1 then Inr w_yuz
            else (case lookup ONES (n div 100) of
                    Inl e \<Rightarrow> Inl e
                  | Inr h \<Rightarrow> Inr (h @ [32] @ w_yuz))) = Inr result"
      and a: "add_remainder result (n mod 100) (number_to_uzbek_words k (n mod 100)) = Inr w"
      unfolding nuw_hun [OF hun] by (auto split: sum.splits)
    from r have "list_all plain_char result"
      by (auto simp: sw split: if_splits sum.splits dest: lookup_plain [OF _ lx(1)])
    from add_remainder_plain [OF a this] IH show ?thesis by blast
  next
    case ten
    from Suc.prems show ?thesis unfolding nuw_ten [OF ten]
      by (auto simp: sw split: if_splits sum.splits
          dest: lookup_plain [OF _ lx(1)] lookup_plain [OF _ lx(2)])
  next
    case one
    from Suc.prems show ?thesis unfolding nuw_one [OF one]
      by (rule lookup_plain [OF _ lx(1)])
  qed
qed

lemma lookup_ONES: "1 \<le> n \<Longrightarrow> n \<le> 9 \<Longrightarrow> \<exists>w. lookup ONES n = Inr w"
proof -
  assume "1 \<le> n" "n \<le> 9"
  then have "n \<in> {1, 2, 3, 4, 5, 6, 7, 8, 9}" by auto
  then show ?thesis by (auto simp: lookup_def ONES_def)
qed

lemma lookup_TENS: "10 \<le> n \<Longrightarrow> n < 100 \<Longrightarrow> \<exists>w. lookup TENS (n div 10 * 10) = Inr w"
proof -
  assume "10 \<le> n" "n < 100"
  then have "n div 10 \<in> {1, 2, 3, 4, 5, 6, 7, 8, 9}" by auto
  then show ?thesis by (auto simp: lookup_def TENS_def)
qed

lemma add_remainder_ok:
  "(0 < r \<Longrightarrow> \<exists>w. rest = Inr w) \<Longrightarrow> \<exists>w. add_remainder res r rest = Inr w"
  by (auto simp: add_remainder_def)

text \<open>Frames that are enough: one below 100, two below 1000, three below \<open>10^6\<close>, four
  below \<open>10^9\<close>, and one more for every further factor \<open>10^9\<close>.\<close>

lemma enough_100:
  assumes "0 \<le> n" "n < 100"
  shows "\<exists>w. number_to_uzbek_words (Suc k) n = Inr w"
proof -
  consider (zero) "n = 0" | (one) "0 < n" "n < 10" | (ten) "10 \<le> n" "n < 100"
    using assms by linarith
  then show ?thesis
  proof cases
    case zero
    then show ?thesis by (simp add: nuw_zero)
  next
    case one
    then have "\<exists>w. lookup ONES n = Inr w" by (intro lookup_ONES) linarith+
    then show ?thesis by (simp add: nuw_one [OF one])
  next
    case ten
    from lookup_TENS [OF ten] obtain t where t: "lookup TENS (n div 10 * 10) = Inr t" ..
    have "0 < n mod 10 \<Longrightarrow> \<exists>w. lookup ONES (n mod 10) = Inr w"
      by (rule lookup_ONES) linarith+
    with t show ?thesis unfolding nuw_ten [OF ten] by auto
  qed
qed

lemma enough_1000:
  assumes "0 \<le> n" "n < 1000"
  shows "\<exists>w. number_to_uzbek_words (Suc (Suc k)) n = Inr w"
proof (cases "n < 100")
  case True
  with assms(1) show ?thesis by (rule enough_100)
next
  case False
  then have hun: "100 \<le> n" "n < 1000" using assms by simp_all
  then have "1 \<le> n div 100" "n div 100 \<le> 9" by linarith+
  from lookup_ONES [OF this] obtain h where "lookup ONES (n div 100) = Inr h" ..
  then obtain result where r: "(if n div 100 = 1 then Inr w_yuz
            else (case lookup ONES (n div 100) of
                    Inl e \<Rightarrow> Inl e
                  | Inr h \<Rightarrow> Inr (h @ [32] @ w_yuz))) = Inr result"
    by (cases "n div 100 = 1") simp_all
  have "\<exists>w. number_to_uzbek_words (Suc k) (n mod 100) = Inr w"
    by (rule enough_100) simp_all
  then have "\<exists>w. add_remainder result (n mod 100)
               (number_to_uzbek_words (Suc k) (n mod 100)) = Inr w"
    by (intro add_remainder_ok)
  then show ?thesis unfolding nuw_hun [OF hun] r by simp
qed

lemma enough_million:
  assumes "0 \<le> n" "n < 1000000"
  shows "\<exists>w. number_to_uzbek_words (Suc (Suc (Suc k))) n = Inr w"
proof (cases "n < 1000")
  case True
  with assms(1) show ?thesis by (rule enough_1000)
next
  case False
  then have tho: "1000 \<le> n" "n < 1000000" using assms by simp_all
  then have "0 \<le> n div 1000" "n div 1000 < 1000" by linarith+
  from enough_1000 [OF this] obtain t where
    "number_to_uzbek_words (Suc (Suc k)) (n div 1000) = Inr t" ..
  then obtain result where r: "(if n div 1000 = 1 then Inr w_ming
            else (case number_to_uzbek_words (Suc (Suc k)) (n div 1000) of
                    Inl e \<Rightarrow> Inl e
                  | Inr t \<Rightarrow> Inr (t @ [32] @ w_ming))) = Inr result"
    by (cases "n div 1000 = 1") simp_all
  have "\<exists>w. number_to_uzbek_words (Suc (Suc k)) (n mod 1000) = Inr w"
    by (rule enough_1000) simp_all
  then have "\<exists>w. add_remainder result (n mod 1000)
               (number_to_uzbek_words (Suc (Suc k)) (n mod 1000)) = Inr w"
    by (intro add_remainder_ok)
  then show ?thesis unfolding nuw_tho [OF tho] r by simp
qed

lemma enough_billion:
  assumes "0 \<le> n" "n < 1000000000"
  shows "\<exists>w. number_to_uzbek_words (Suc (Suc (Suc (Suc k)))) n = Inr w"
proof (cases "n < 1000000")
  case True
  with assms(1) show ?thesis by (rule enough_million)
next
  case False
  then have mil: "1000000 \<le> n" "n < 1000000000" using assms by simp_all
  then have "0 \<le> n div 1000000" "n div 1000000 < 1000000" by linarith+
  from enough_million [OF this] obtain m where
    m: "number_to_uzbek_words (Suc (Suc (Suc k))) (n div 1000000) = Inr m" ..
  have "\<exists>w. number_to_uzbek_words (Suc (Suc (Suc k))) (n mod 1000000) = Inr w"
    by (rule enough_million) simp_all
  then have "\<exists>w. add_remainder (m @ [32] @ w_million) (n mod 1000000)
               (number_to_uzbek_words (Suc (Suc (Suc k))) (n mod 1000000)) = Inr w"
    by (intro add_remainder_ok)
  then show ?thesis unfolding nuw_mil [OF mil] m by simp
qed

lemma div_below:
  fixes n p :: int
  assumes "n < p * 1000000000"
  shows "n div 1000000000 < p"
proof (rule ccontr)
  assume "\<not> n div 1000000000 < p"
  then have "p \<le> n div 1000000000" by simp
  then have "p * 1000000000 \<le> n div 1000000000 * 1000000000" by (rule mult_right_mono) simp
  moreover have "n = n div 1000000000 * 1000000000 + n mod 1000000000" by simp
  moreover have "0 \<le> n mod 1000000000" by simp
  ultimately show False using assms by linarith
qed

lemma enough_frames:
  "1 \<le> j \<Longrightarrow> 0 \<le> n \<Longrightarrow> n < 10 ^ (9 * j) \<Longrightarrow> j + 3 \<le> k \<Longrightarrow>
   \<exists>w. number_to_uzbek_words k n = Inr w"
proof (induction j arbitrary: n k)
  case 0
  then show ?case by simp
next
  case (Suc j)
  from Suc.prems(4) have "k = Suc (Suc (Suc (Suc (k - 4))))" by arith
  then obtain k4 where k4: "k = Suc (Suc (Suc (Suc k4)))" ..
  show ?case
  proof (cases "n < 1000000000")
    case True
    with Suc.prems(2) show ?thesis unfolding k4 by (rule enough_billion)
  next
    case False
    then have bil: "1000000000 \<le> n" by simp
    have j: "1 \<le> j"
    proof (rule ccontr)
      assume "\<not> 1 \<le> j"
      then have "j = 0" by simp
      with Suc.prems(3) False show False by simp
    qed
    obtain k1 where k1: "k = Suc k1" using k4 by blast
    with Suc.prems(4) have kj: "j + 3 \<le> k1" by simp
    with j have "k1 = Suc (Suc (Suc (Suc (k1 - 4))))" by arith
    then have k14: "\<exists>k'. k1 = Suc (Suc (Suc (Suc k')))" ..
    have "(10::int) ^ (9 * Suc j) = 10 ^ (9 * j) * 1000000000" by (simp add: power_add)
    with Suc.prems(3) have "n < 10 ^ (9 * j) * 1000000000" by simp
    then have "n div 1000000000 < 10 ^ (9 * j)" by (rule div_below)
    moreover from bil have "0 \<le> n div 1000000000" by simp
    ultimately obtain b where b: "number_to_uzbek_words k1 (n div 1000000000) = Inr b"
      using Suc.IH [OF j _ _ kj] by blast
    from k14 obtain k' where k': "k1 = Suc (Suc (Suc (Suc k')))" ..
    have "\<exists>w. number_to_uzbek_words k1 (n mod 1000000000) = Inr w"
      unfolding k' by (rule enough_billion) simp_all
    then have "\<exists>w. add_remainder (b @ [32] @ w_milliard) (n mod 1000000000)
               (number_to_uzbek_words k1 (n mod 1000000000)) = Inr w"
      by (intro add_remainder_ok)
    then show ?thesis unfolding k1 nuw_bil [OF bil] b by simp
  qed
qed

text \<open>A result does not depend on the frames: with one frame more the function returns
  the same words.\<close>

lemma add_remainder_more:
  "add_remainder res r a = Inr w \<Longrightarrow> (\<And>x. a = Inr x \<Longrightarrow> b = Inr x) \<Longrightarrow>
   add_remainder res r b = Inr w"
  by (auto simp: add_remainder_def split: if_splits sum.splits)

lemma one_frame_more:
  "number_to_uzbek_words k n = Inr w \<Longrightarrow> number_to_uzbek_words (Suc k) n = Inr w"
proof (induction k arbitrary: n w)
  case 0
  then show ?case by (simp add: number_to_uzbek_words.simps)
next
  case (Suc k)
  note IH = Suc.IH
  consider (zero) "n = 0" | (neg) "n < 0" | (bil) "n \<ge> 1000000000"
    | (mil) "1000000 \<le> n" "n < 1000000000"
    | (tho) "1000 \<le> n" "n < 1000000"
    | (hun) "100 \<le> n" "n < 1000"
    | (ten) "10 \<le> n" "n < 100"
    | (one) "0 < n" "n < 10"
    by linarith
  then show ?case
  proof cases
    case zero
    with Suc.prems show ?thesis by (simp add: nuw_zero)
  next
    case neg
    from Suc.prems obtain x where x: "number_to_uzbek_words k \<bar>n\<bar> = Inr x" "w = w_minus_sp @ x"
      unfolding nuw_neg [OF neg] by (auto split: sum.splits)
    from IH [OF x(1)] x(2) show ?thesis unfolding nuw_neg [OF neg] by simp
  next
    case bil
    from Suc.prems obtain b where b: "number_to_uzbek_words k (n div 1000000000) = Inr b"
      and a: "add_remainder (b @ [32] @ w_milliard) (n mod 1000000000)
                (number_to_uzbek_words k (n mod 1000000000)) = Inr w"
      unfolding nuw_bil [OF bil] by (auto split: sum.splits)
    from add_remainder_more [OF a IH] IH [OF b] show ?thesis unfolding nuw_bil [OF bil] by simp
  next
    case mil
    from Suc.prems obtain b where b: "number_to_uzbek_words k (n div 1000000) = Inr b"
      and a: "add_remainder (b @ [32] @ w_million) (n mod 1000000)
                (number_to_uzbek_words k (n mod 1000000)) = Inr w"
      unfolding nuw_mil [OF mil] by (auto split: sum.splits)
    from add_remainder_more [OF a IH] IH [OF b] show ?thesis unfolding nuw_mil [OF mil] by simp
  next
    case tho
    from Suc.prems obtain result where r: "(if n div 1000 = 1 then Inr w_ming
            else (case number_to_uzbek_words k (n div 1000) of
                    Inl e \<Rightarrow> Inl e
                  | Inr t \<Rightarrow> Inr (t @ [32] @ w_ming))) = Inr result"
      and a: "add_remainder result (n mod 1000) (number_to_uzbek_words k (n mod 1000)) = Inr w"
      unfolding nuw_tho [OF tho] by (auto split: sum.splits)
    from r IH have r': "(if n div 1000 = 1 then Inr w_ming
            else (case number_to_uzbek_words (Suc k) (n div 1000) of
                    Inl e \<Rightarrow> Inl e
                  | Inr t \<Rightarrow> Inr (t @ [32] @ w_ming))) = Inr result"
      by (auto split: if_splits sum.splits)
    from add_remainder_more [OF a IH] show ?thesis unfolding nuw_tho [OF tho] r' by simp
  next
    case hun
    from Suc.prems obtain result where r: "(if n div 100 = 1 then Inr w_yuz
            else (case lookup ONES (n div 100) of
                    Inl e \<Rightarrow> Inl e
                  | Inr h \<Rightarrow> Inr (h @ [32] @ w_yuz))) = Inr result"
      and a: "add_remainder result (n mod 100) (number_to_uzbek_words k (n mod 100)) = Inr w"
      unfolding nuw_hun [OF hun] by (auto split: sum.splits)
    from add_remainder_more [OF a IH] show ?thesis unfolding nuw_hun [OF hun] r by simp
  next
    case ten
    from Suc.prems show ?thesis unfolding nuw_ten [OF ten] .
  next
    case one
    from Suc.prems show ?thesis unfolding nuw_one [OF one] .
  qed
qed

lemma add_frames:
  "number_to_uzbek_words k n = Inr w \<Longrightarrow> number_to_uzbek_words (k + d) n = Inr w"
  by (induction d) (simp_all add: one_frame_more)

lemma more_frames:
  assumes "number_to_uzbek_words k n = Inr w" "k \<le> k'"
  shows "number_to_uzbek_words k' n = Inr w"
proof -
  from assms(2) have "k' = k + (k' - k)" by simp
  with add_frames [OF assms(1), of "k' - k"] show ?thesis by simp
qed

lemma nuw_eval:
  "number_to_uzbek_words (Suc k) 42 = Inr [1179, 1080, 1088, 1179, 32, 1080, 1082, 1082, 1080]"
  "number_to_uzbek_words (Suc k) 1000 = Inr [1084, 1080, 1085, 1075]"
  "number_to_uzbek_words (Suc k) 100 = Inr [1102, 1079]"
  "number_to_uzbek_words (Suc k) 0 = Inr [1085, 1086, 1083]"
  "number_to_uzbek_words (Suc k) 3 = Inr [1091, 1095]"
  "number_to_uzbek_words (Suc k) 5 = Inr [1073, 1077, 1096]"
  "number_to_uzbek_words (Suc k) 25 = Inr [1081, 1080, 1075, 1080, 1088, 1084, 1072, 32, 1073, 1077, 1096]"
  "number_to_uzbek_words (Suc (Suc k)) 2023 =
     Inr [1080, 1082, 1082, 1080, 32, 1084, 1080, 1085, 1075, 32,
          1081, 1080, 1075, 1080, 1088, 1084, 1072, 32, 1091, 1095]"
  by (simp_all add: number_to_uzbek_words.simps lookup_def TENS_def ONES_def add_remainder_def
      w_ming_def w_yuz_def w_nol_def)

lemma nuw_2023_one_frame: "number_to_uzbek_words (Suc 0) 2023 = Inl RecursionError"
  by (simp add: number_to_uzbek_words.simps)

section \<open>Numbers in text: evaluations\<close>

lemma decimal_ascii: "48 \<le> c \<Longrightarrow> c \<le> 57 \<Longrightarrow> decimal c = Some (c - 48)"
  by (simp add: decimal_def nd_zeros_def)

lemma decimal_below: "c < 48 \<Longrightarrow> decimal c = None"
  by (simp add: decimal_def nd_zeros_def)

lemma decimal_between: "57 < c \<Longrightarrow> c < 1632 \<Longrightarrow> decimal c = None"
  by (simp add: decimal_def nd_zeros_def)

lemma digit_facts:
  "is_digit 51" "is_digit 53" "\<not> is_digit 46" "\<not> is_digit 44" "\<not> is_digit 32"
  "digit_value 51 = 3" "digit_value 53 = 5"
  by (simp_all add: is_digit_def digit_value_def decimal_ascii decimal_below)

lemma strip_digit: "strip [51] = [51]" "strip [53] = [53]" "strip [] = []"
  by (simp_all add: strip_def is_space_def)

lemma int_digit: "py_int R [51] = Inr 3" "py_int R [53] = Inr 5"
  by (auto simp: py_int_def digit_facts)

lemma replace_number_3_5:
  "replace_number R [51, 46, 53] = Inr [1091, 1095, 32, 1073, 1077, 1096]"
  by (simp add: replace_number_def py_replace.simps w_sp_vergul_sp_def w_vergul_def
      py_split_sep_def split_pieces.simps py_isdigit_def digit_facts strip_digit int_digit nuw_eval)

lemma replace_number_3_dot:
  "replace_number R [51, 46] = Inr [1091, 1095, 32, 1074, 1077, 1088, 1075, 1091, 1083]"
  by (simp add: replace_number_def py_replace.simps w_sp_vergul_sp_def w_vergul_def
      py_split_sep_def split_pieces.simps py_isdigit_def digit_facts strip_digit int_digit nuw_eval)

lemma convert_3_5:
  "convert_numbers_in_text R (asc ''3.5'') = Inr [1091, 1095, 32, 1073, 1077, 1096]"
  by (simp add: convert_numbers_in_text_def asc_def ordinal_match_def number_match_def
      digit_facts replace_number_3_5)

lemma convert_3_dot:
  "convert_numbers_in_text R (asc ''3.'') = Inr [1091, 1095, 32, 1074, 1077, 1088, 1075, 1091, 1083]"
  by (simp add: convert_numbers_in_text_def asc_def ordinal_match_def number_match_def
      digit_facts replace_number_3_dot)


section \<open>Transliteration: evaluations and what the passes preserve\<close>

lemmas translit_eval = latin_to_cyrillic_def replace_single_def replace_multi_def
  normalize_apostrophes_def apostrophe_variants_def LATIN_TO_CYRILLIC_def py_replace.simps asc_def

lemma translit_left_quote: "latin_to_cyrillic (asc ''o'' @ [8216] @ asc ''zbek'') = [1086, 8216, 1079, 1073, 1077, 1082]"
  by (simp add: translit_eval)

lemma translit_ascii_quote: "latin_to_cyrillic (asc ''o'' @ [39] @ asc ''zbek'') = [1118, 1079, 1073, 1077, 1082]"
  by (simp add: translit_eval)

lemma translit_modifier: "latin_to_cyrillic (asc ''o'' @ [699] @ asc ''zbek'') = [1118, 1079, 1073, 1077, 1082]"
  by (simp add: translit_eval)

lemma translit_doc: "latin_to_cyrillic (asc ''doc'') = [1076, 1086, 99]"
  by (simp add: translit_eval)

lemma tie_eval: "transliterate_if_latin (asc ''a'' @ [1073]) = (asc ''a'' @ [1073], False)"
  "latin_count (asc ''a'' @ [1073]) = 1" "cyrillic_count (asc ''a'' @ [1073]) = 1"
  "detect_script (asc ''a'' @ [1073]) = asc ''Latin''"
  by (simp_all add: transliterate_if_latin_def detect_script_def latin_count_def cyrillic_count_def is_latin_def is_cyrillic_def asc_def)

lemma py_replace_Nil: "old \<noteq> [] \<Longrightarrow> py_replace old new [] = []"
  by (subst py_replace.simps) simp

lemma py_replace_hit:
  "old \<noteq> [] \<Longrightarrow> py_replace old new (old @ rest) = new @ py_replace old new rest"
  by (subst py_replace.simps) simp

lemma py_replace_miss:
  "old \<noteq> [] \<Longrightarrow> \<not> prefix old (c # cs) \<Longrightarrow> py_replace old new (c # cs) = c # py_replace old new cs"
  by (subst py_replace.simps) simp

lemma py_replace_char:
  "py_replace [l] [c] s = map (\<lambda>x. if x = l then c else x) s"
proof (induction s)
  case Nil
  show ?case by (simp add: py_replace_Nil)
next
  case (Cons a s)
  show ?case
  proof (cases "a = l")
    case True
    have "py_replace [l] [c] ([l] @ s) = [c] @ py_replace [l] [c] s" by (rule py_replace_hit) simp
    with True Cons show ?thesis by simp
  next
    case False
    then have "\<not> prefix [l] (a # s)" by simp
    then have "py_replace [l] [c] (a # s) = a # py_replace [l] [c] s" by (intro py_replace_miss) simp_all
    with False Cons show ?thesis by simp
  qed
qed

lemma py_replace_count:
  assumes "old \<noteq> []" "x \<notin> set old" "x \<notin> set new"
  shows "count_list (py_replace old new s) x = count_list s x"
proof (induction s rule: length_induct)
  case (1 s)
  show ?case
  proof (cases s)
    case Nil
    with assms(1) show ?thesis by (simp add: py_replace_Nil)
  next
    case (Cons c cs)
    show ?thesis
    proof (cases "prefix old s")
      case True
      then obtain rest where s: "s = old @ rest" by (auto simp: prefix_def)
      with assms(1) have "length rest < length s" by simp
      with 1 have "count_list (py_replace old new rest) x = count_list rest x" by blast
      with assms show ?thesis by (simp add: s py_replace_hit)
    next
      case False
      with Cons assms(1) have "py_replace old new s = c # py_replace old new cs"
        by (simp add: py_replace_miss)
      moreover from 1 Cons have "count_list (py_replace old new cs) x = count_list cs x" by simp
      ultimately show ?thesis using Cons by simp
    qed
  qed
qed

lemma foldl_table_count:
  "\<forall>(l, c)\<in>set tbl. l \<noteq> [] \<and> x \<notin> set l \<and> x \<notin> set c \<Longrightarrow>
   count_list (foldl (\<lambda>r (l, c). if P l then py_replace l c r else r) s tbl) x = count_list s x"
proof (induction tbl arbitrary: s)
  case Nil
  show ?case by simp
next
  case (Cons e tbl)
  obtain l c where e: "e = (l, c)" by (cases e)
  with Cons.prems have "l \<noteq> []" "x \<notin> set l" "x \<notin> set c" by simp_all
  then have "count_list (if P l then py_replace l c s else s) x = count_list s x"
    by (simp add: py_replace_count)
  moreover from Cons.prems have "\<forall>(l, c)\<in>set tbl. l \<noteq> [] \<and> x \<notin> set l \<and> x \<notin> set c" by simp
  ultimately show ?case using Cons.IH e by simp
qed

lemma table_free_of_w:
  "x = 119 \<or> x = 87 \<Longrightarrow> \<forall>(l, c)\<in>set LATIN_TO_CYRILLIC. l \<noteq> [] \<and> x \<notin> set l \<and> x \<notin> set c"
  by (auto simp: LATIN_TO_CYRILLIC_def)

lemma normalize_apostrophes_count:
  "x \<noteq> 39 \<Longrightarrow> x \<noteq> 96 \<Longrightarrow> x \<noteq> 699 \<Longrightarrow> x \<noteq> 700 \<Longrightarrow>
   count_list (normalize_apostrophes s) x = count_list s x"
  by (simp add: normalize_apostrophes_def apostrophe_variants_def py_replace_count)

lemma latin_to_cyrillic_count_w:
  assumes "x = 119 \<or> x = 87"
  shows "count_list (latin_to_cyrillic s) x = count_list s x"
proof -
  from assms have "count_list (normalize_apostrophes s) x = count_list s x"
    by (intro normalize_apostrophes_count) auto
  then show ?thesis
    unfolding latin_to_cyrillic_def replace_single_def replace_multi_def
    by (simp add: foldl_table_count [OF table_free_of_w [OF assms]])
qed

lemma single_pass_keeps:
  "\<forall>(l, c)\<in>set tbl. length l = 1 \<longrightarrow> length c = 1 \<and> l \<noteq> [x] \<Longrightarrow> i < length s \<Longrightarrow> s ! i = x \<Longrightarrow>
   length (foldl (\<lambda>r (l, c). if length l = 1 then py_replace l c r else r) s tbl) = length s \<and>
   foldl (\<lambda>r (l, c). if length l = 1 then py_replace l c r else r) s tbl ! i = x"
proof (induction tbl arbitrary: s)
  case Nil
  then show ?case by simp
next
  case (Cons e tbl)
  obtain l c where e: "e = (l, c)" by (cases e)
  let ?s = "if length l = 1 then py_replace l c s else s"
  have "length ?s = length s \<and> ?s ! i = x"
  proof (cases "length l = 1")
    case True
    with Cons.prems(1) e have "length c = 1" "l \<noteq> [x]" by simp_all
    with True obtain a b where ab: "l = [a]" "c = [b]" "a \<noteq> x"
      by (cases l; cases c) auto
    with Cons.prems(2,3) show ?thesis by (simp add: py_replace_char)
  next
    case False
    with Cons.prems show ?thesis by simp
  qed
  moreover from Cons.prems(1) have "\<forall>(l, c)\<in>set tbl. length l = 1 \<longrightarrow> length c = 1 \<and> l \<noteq> [x]" by simp
  ultimately show ?case using Cons.IH [of ?s] Cons.prems(2) e by simp
qed

lemma table_singles:
  "x = 99 \<or> x = 67 \<or> x = 119 \<or> x = 87 \<Longrightarrow>
   \<forall>(l, c)\<in>set LATIN_TO_CYRILLIC. length l = 1 \<longrightarrow> length c = 1 \<and> l \<noteq> [x]"
  by (auto simp: LATIN_TO_CYRILLIC_def)

lemma replace_single_keeps:
  "x = 99 \<or> x = 67 \<or> x = 119 \<or> x = 87 \<Longrightarrow> i < length m \<Longrightarrow> m ! i = x \<Longrightarrow>
   length (replace_single m) = length m \<and> replace_single m ! i = x"
  unfolding replace_single_def by (rule single_pass_keeps [OF table_singles])

section \<open>The acronym scan and the word runs\<close>

lemma scan_nonword:
  assumes R: "acronym_runtime R"
  shows "\<forall>c\<in>set v. \<not> word_char R c \<Longrightarrow>
         sub_acronyms R prev (v @ rest) = v @ sub_acronyms R (if v = [] then prev else Some (last v)) rest"
proof (induction v arbitrary: prev)
  case Nil
  show ?case by simp
next
  case (Cons c v)
  from Cons.prems R have "\<not> acr_class c" by (auto simp: acronym_runtime_def)
  then have "acr_match R prev (c # v @ rest) = None" by (simp add: acr_match_def)
  moreover from Cons.prems have "\<forall>c\<in>set v. \<not> word_char R c" by simp
  ultimately show ?case using Cons.IH [of "Some c"] by simp
qed

lemma scan_inside_word:
  "is_word R prev \<Longrightarrow> \<forall>c\<in>set u. word_char R c \<Longrightarrow>
   sub_acronyms R prev (u @ rest) = u @ sub_acronyms R (if u = [] then prev else Some (last u)) rest"
proof (induction u arbitrary: prev)
  case Nil
  show ?case by simp
next
  case (Cons c u)
  from Cons.prems have "\<not> word_boundary R prev (char_at (c # u @ rest) 0)"
    by (simp add: word_boundary_def char_at_def is_word_def)
  then have "acr_match R prev (c # u @ rest) = None" by (simp add: acr_match_def)
  moreover from Cons.prems have "is_word R (Some c)" "\<forall>c\<in>set u. word_char R c"
    by (simp_all add: is_word_def)
  ultimately show ?case using Cons.IH [of "Some c"] by simp
qed

lemma give_back_interior:
  "\<forall>c\<in>set u. word_char R c \<Longrightarrow> k < length u \<Longrightarrow> give_back R (u @ rest) k = None"
proof (induction k)
  case 0
  show ?case by simp
next
  case (Suc k)
  then have "char_at (u @ rest) k = Some (u ! k)" "char_at (u @ rest) (Suc k) = Some (u ! Suc k)"
    by (simp_all add: char_at_def nth_append)
  moreover from Suc.prems have "word_char R (u ! k)" "word_char R (u ! Suc k)" by simp_all
  ultimately have "\<not> word_boundary R (char_at (u @ rest) k) (char_at (u @ rest) (Suc k))"
    by (simp add: word_boundary_def is_word_def)
  with Suc show ?case by simp
qed

lemma give_back_whole:
  assumes "u \<noteq> []" "\<forall>c\<in>set u. word_char R c" "rest = [] \<or> \<not> word_char R (hd rest)"
  shows "give_back R (u @ rest) (length u) = Some (length u)"
proof -
  from assms(1) obtain k where k: "length u = Suc k" by (cases u) auto
  then have "char_at (u @ rest) k = Some (u ! k)" by (simp add: char_at_def nth_append)
  moreover from k assms(2) have "word_char R (u ! k)" by simp
  moreover have "\<not> is_word R (char_at (u @ rest) (Suc k))"
  proof (cases rest)
    case Nil
    with k show ?thesis by (simp add: char_at_def is_word_def)
  next
    case (Cons r rs)
    with assms(3) have "\<not> word_char R r" by simp
    with k Cons show ?thesis by (simp add: char_at_def is_word_def nth_append)
  qed
  ultimately have "word_boundary R (char_at (u @ rest) k) (char_at (u @ rest) (Suc k))"
    by (simp add: word_boundary_def is_word_def)
  with k show ?thesis by simp
qed

lemma class_run_of_word:
  assumes R: "acronym_runtime R" and "rest = [] \<or> \<not> word_char R (hd rest)"
  shows "takeWhile acr_class (u @ rest) = takeWhile acr_class u"
proof (cases rest)
  case Nil
  then show ?thesis by simp
next
  case (Cons r rs)
  with assms have "\<not> acr_class r" by (auto simp: acronym_runtime_def)
  then have "takeWhile acr_class (u @ r # rs) = takeWhile acr_class u"
    by (induction u) simp_all
  with Cons show ?thesis by simp
qed

lemma spell_run_other: "\<not> list_all acr_class run \<Longrightarrow> spell_run R run = run"
  by (simp add: spell_run_def)

lemma replace_acronym_class:
  assumes "acronym_runtime R" "u \<noteq> []" "list_all acr_class u"
  shows "replace_acronym R u = spell_run R u"
proof -
  from assms have "str_isupper R u \<and> str_isalpha R u" by (simp add: acronym_runtime_def)
  with assms(3) show ?thesis by (simp add: replace_acronym_def spell_run_def)
qed

lemma scan_word_start:
  assumes R: "acronym_runtime R" and p: "\<not> is_word R prev" and u: "u \<noteq> []" "\<forall>c\<in>set u. word_char R c"
    and r: "rest = [] \<or> \<not> word_char R (hd rest)"
  shows "sub_acronyms R prev (u @ rest) = spell_run R u @ sub_acronyms R (Some (last u)) rest"
proof -
  from u(1) obtain c u' where cu: "u = c # u'" by (cases u) auto
  with u(2) have c: "word_char R c" by simp
  with p have b: "word_boundary R prev (char_at (u @ rest) 0)"
    by (simp add: word_boundary_def char_at_def is_word_def cu)
  have k: "takeWhile acr_class (u @ rest) = takeWhile acr_class u"
    by (rule class_run_of_word [OF R r])
  show ?thesis
  proof (cases "list_all acr_class u")
    case True
    then have "takeWhile acr_class u = u" by (simp add: list_all_iff)
    with b k give_back_whole [OF u r] have "acr_match R prev (u @ rest) = Some (length u)"
      by (simp add: acr_match_def)
    moreover have "char_at (u @ rest) (length u - 1) = Some (last u)"
      unfolding cu by (simp add: char_at_def nth_append last_conv_nth)
    ultimately have "sub_acronyms R prev (u @ rest)
        = replace_acronym R u @ sub_acronyms R (Some (last u)) rest"
      using cu by simp
    with replace_acronym_class [OF R u(1) True] show ?thesis by simp
  next
    case False
    then have "length (takeWhile acr_class u) < length u"
      by (induction u) (auto simp: le_imp_less_Suc length_takeWhile_le)
    with b k give_back_interior [OF u(2)] have "acr_match R prev (u @ rest) = None"
      by (simp add: acr_match_def)
    then have "sub_acronyms R prev (u @ rest) = c # sub_acronyms R (Some c) (u' @ rest)"
      using cu by simp
    also have "sub_acronyms R (Some c) (u' @ rest)
        = u' @ sub_acronyms R (if u' = [] then Some c else Some (last u')) rest"
      using c u(2) cu by (intro scan_inside_word) (simp_all add: is_word_def)
    finally show ?thesis using False cu by (simp add: spell_run_other)
  qed
qed

lemma sub_acronyms_word_runs:
  "acronym_runtime R \<Longrightarrow> \<not> (is_word R prev \<and> s \<noteq> [] \<and> word_char R (hd s)) \<Longrightarrow>
   sub_acronyms R prev s = spell_word_runs R s"
proof (induction R s arbitrary: prev rule: word_runs.induct)
  case (1 R)
  show ?case by (simp add: spell_word_runs_def)
next
  case (2 R c cs)
  let ?same = "\<lambda>x. word_char R x = word_char R c"
  let ?u = "c # takeWhile ?same cs" and ?rest = "dropWhile ?same cs"
  have s: "sub_acronyms R prev (c # cs) = sub_acronyms R prev (?u @ ?rest)" by simp
  have rest: "?rest = [] \<or> \<not> ?same (hd ?rest)"
    using hd_dropWhile [of ?same cs] by blast
  have runs: "spell_word_runs R (c # cs) = spell_run R ?u @ spell_word_runs R ?rest"
    by (simp add: spell_word_runs_def)
  have u_same: "\<forall>x\<in>set ?u. ?same x" by (auto dest: set_takeWhileD)
  show ?case
  proof (cases "word_char R c")
    case True
    with "2.prems"(2) have p: "\<not> is_word R prev" by simp
    from True u_same have uw: "\<forall>x\<in>set ?u. word_char R x" by blast
    from True rest have r: "?rest = [] \<or> \<not> word_char R (hd ?rest)" by blast
    have a: "sub_acronyms R prev (?u @ ?rest)
        = spell_run R ?u @ sub_acronyms R (Some (last ?u)) ?rest"
      by (rule scan_word_start [OF "2.prems"(1) p _ uw r]) simp
    have b: "sub_acronyms R (Some (last ?u)) ?rest = spell_word_runs R ?rest"
      using r by (intro "2.IH" "2.prems"(1)) auto
    show ?thesis by (simp only: s a b runs)
  next
    case False
    with u_same have un: "\<forall>x\<in>set ?u. \<not> word_char R x" by blast
    then have "\<not> acr_class c" using "2.prems"(1) by (auto simp: acronym_runtime_def)
    then have su: "spell_run R ?u = ?u" by (simp add: spell_run_def)
    have a: "sub_acronyms R prev (?u @ ?rest) = ?u @ sub_acronyms R (Some (last ?u)) ?rest"
      using scan_nonword [OF "2.prems"(1) un, of prev ?rest] by simp
    have "last ?u \<in> set ?u" by (rule last_in_set) simp
    with un have "\<not> word_char R (last ?u)" by blast
    then have "\<not> is_word R (Some (last ?u))" by (simp add: is_word_def)
    then have b: "sub_acronyms R (Some (last ?u)) ?rest = spell_word_runs R ?rest"
      by (intro "2.IH" "2.prems"(1)) simp
    show ?thesis by (simp only: s a b runs su)
  qed
qed

lemma py_join_count:
  "names \<noteq> [] \<Longrightarrow> \<forall>n\<in>set names. x \<notin> set n \<Longrightarrow>
   count_list (py_join [x] names) x = length names - 1"
proof (induction "[x]" names rule: py_join.induct)
  case 1
  then show ?case by simp
next
  case (2 n)
  then show ?case by simp
next
  case (3 n m names)
  then show ?case by simp
qed

lemma letter_name_plain:
  assumes "acronym_runtime R" "acr_class c"
  shows "45 \<notin> set (letter_name R c) \<and> (\<forall>d\<in>set (letter_name R c). \<not> is_digit d)"
proof -
  let ?P = "\<lambda>c. 45 \<notin> set (letter_name R c) \<and> (\<forall>d\<in>set (letter_name R c). \<not> is_digit d)"
  from assms(1) have l: "char_lower R 1065 = [1097]" "char_lower R 1067 = [1099]"
    by (simp_all add: acronym_runtime_def)
  have d: "\<not> is_digit x" if "57 < x" "x < 1632" for x
    using that by (simp add: is_digit_def decimal_between)
  have s: "\<not> is_digit 32" by (simp add: is_digit_def decimal_below)
  note ev = letter_name_def LETTER_NAMES_CYRILLIC_def LETTER_NAMES_LATIN_def l d s
  have 1: "list_all ?P [65..<91]" by (simp add: ev)
  have 2: "list_all ?P [1040..<1072]" by (simp add: ev)
  have 3: "list_all ?P [1025, 1178, 1170, 1202, 1038]" by (simp add: ev)
  from assms(2) consider "c \<in> set [65..<91]" | "c \<in> set [1040..<1072]"
    | "c \<in> set [1025, 1178, 1170, 1202, 1038]"
    unfolding acr_class_def set_upt by auto
  then show ?thesis
  proof cases
    case 1 with \<open>list_all ?P [65..<91]\<close> show ?thesis unfolding list_all_iff by blast
  next
    case 2 with \<open>list_all ?P [1040..<1072]\<close> show ?thesis unfolding list_all_iff by blast
  next
    case 3 with \<open>list_all ?P [1025, 1178, 1170, 1202, 1038]\<close> show ?thesis
      unfolding list_all_iff by blast
  qed
qed

lemma spell_out_hyphens:
  assumes "acronym_runtime R" "run \<noteq> []" "list_all acr_class run"
  shows "count_list (spell_out_acronym R run) 45 = length run - 1"
proof -
  have "\<forall>n\<in>set (map (letter_name R) run). 45 \<notin> set n"
    using assms(1,3) letter_name_plain by (auto simp: list_all_iff)
  with assms(2) have "count_list (py_join [45] (map (letter_name R) run)) 45
      = length (map (letter_name R) run) - 1"
    by (intro py_join_count) simp_all
  then show ?thesis by (simp add: spell_out_acronym_def)
qed

lemma lc_class:
  assumes "acr_class c"
  shows "lc_upper c \<and> \<not> lc_lower c \<and> lc_alpha c"
proof -
  from assms consider "65 \<le> c \<and> c \<le> 90" | "1040 \<le> c \<and> c \<le> 1071"
    | "c = 1025" | "c = 1178" | "c = 1170" | "c = 1202" | "c = 1038"
    unfolding acr_class_def by blast
  then show ?thesis
    by cases (simp_all add: lc_upper_def lc_lower_def lc_alpha_def)
qed

lemma latin_cyrillic_runtime_ok: "acronym_runtime latin_cyrillic_runtime"
proof -
  have 1: "\<forall>c. acr_class c \<longrightarrow> word_char latin_cyrillic_runtime c"
    using lc_class by (simp add: latin_cyrillic_runtime_def)
  have 2: "str_isupper latin_cyrillic_runtime w \<and> str_isalpha latin_cyrillic_runtime w"
    if "w \<noteq> [] \<and> list_all acr_class w" for w
  proof -
    from that obtain c cs where w: "w = c # cs" by (cases w) auto
    with that have "lc_upper c" using lc_class by simp
    then have "list_ex lc_upper w" by (simp add: w)
    moreover from that have "list_all (\<lambda>c. \<not> lc_lower c) w" "list_all lc_alpha w"
      using lc_class by (auto simp: list_all_iff)
    ultimately show ?thesis using that by (simp add: latin_cyrillic_runtime_def)
  qed
  have 3: "char_lower latin_cyrillic_runtime 1065 = [1097]"
    "char_lower latin_cyrillic_runtime 1067 = [1099]"
    by (simp_all add: latin_cyrillic_runtime_def lc_to_lower_def)
  from 1 2 3 show ?thesis unfolding acronym_runtime_def by blast
qed

lemmas acr_eval = process_acronyms_in_text_def acr_match_def word_boundary_def is_word_def
  char_at_def acr_class_def latin_cyrillic_runtime_def lc_alpha_def lc_upper_def lc_lower_def
  replace_acronym_def spell_out_acronym_def letter_name_def LETTER_NAMES_CYRILLIC_def
  LETTER_NAMES_LATIN_def asc_def

lemma acr_usa1: "process_acronyms_in_text latin_cyrillic_runtime (asc ''USA1'') = asc ''USA1''"
  by (simp add: acr_eval)

lemma acr_usa:
  "process_acronyms_in_text latin_cyrillic_runtime (asc ''Men USA da'')
     = asc ''Men '' @ [1091, 45, 1101, 1089, 45, 1072] @ asc '' da''"
  by (simp add: acr_eval)

lemma acr_i: "process_acronyms_in_text latin_cyrillic_runtime (asc ''I am'') = asc ''I am''"
  by (simp add: acr_eval)

section \<open>Digits and Latin letters through the pipeline\<close>

lemma digit_ge_48: "is_digit c \<Longrightarrow> 48 \<le> c"
proof (rule ccontr)
  assume d: "is_digit c" and "\<not> 48 \<le> c"
  then have "c < 48" by simp
  then have "decimal c = None" by (rule decimal_below)
  with d show False by (simp add: is_digit_def)
qed

lemma digit_not_mid: "57 < c \<Longrightarrow> c < 1632 \<Longrightarrow> \<not> is_digit c"
  by (simp add: is_digit_def decimal_between)

lemma plain_not_digit: "plain_char c \<Longrightarrow> \<not> is_digit c"
  using digit_ge_48 [of c] digit_not_mid [of c] by (auto simp: plain_char_def)

lemma class_not_digit: "acr_class c \<Longrightarrow> \<not> is_digit c"
  using digit_not_mid [of c] by (auto simp: acr_class_def)

lemma space_not_digit: "is_space c \<Longrightarrow> \<not> is_digit c"
proof -
  assume "is_space c"
  then consider "c \<le> 32" | "c = 133" | "c = 160" | "c = 5760" | "8192 \<le> c \<and> c \<le> 8202"
    | "c = 8232" | "c = 8233" | "c = 8239" | "c = 8287" | "c = 12288"
    unfolding is_space_def by linarith
  then show ?thesis
  proof cases
    case 1
    then show ?thesis using digit_ge_48 [of c] by auto
  next
    case 5
    then show ?thesis by (simp add: is_digit_def decimal_def nd_zeros_def)
  qed (simp_all add: is_digit_def decimal_def nd_zeros_def)
qed

lemma concat_word_runs: "concat (word_runs R s) = s"
  by (induction R s rule: word_runs.induct) simp_all

lemma filter_digit_py_join:
  "\<forall>n\<in>set names. \<forall>d\<in>set n. \<not> is_digit d \<Longrightarrow> filter is_digit (py_join [45] names) = []"
proof (induction "[45::nat]" names rule: py_join.induct)
  case 1
  show ?case by simp
next
  case (2 n)
  then show ?case by (simp add: filter_empty_conv)
next
  case (3 n m names)
  have "\<not> is_digit 45" using digit_ge_48 [of 45] by auto
  with 3 show ?case by (simp add: filter_empty_conv)
qed

lemma filter_digit_spell_run:
  assumes "acronym_runtime R"
  shows "filter is_digit (spell_run R run) = filter is_digit run"
proof (cases "2 \<le> length run \<and> list_all acr_class run")
  case True
  then have "\<forall>n\<in>set (map (letter_name R) run). \<forall>d\<in>set n. \<not> is_digit d"
    using letter_name_plain [OF assms] by (auto simp: list_all_iff)
  then have "filter is_digit (spell_out_acronym R run) = []"
    unfolding spell_out_acronym_def by (rule filter_digit_py_join)
  moreover from True have "filter is_digit run = []"
    using class_not_digit by (auto simp: list_all_iff filter_empty_conv)
  ultimately show ?thesis using True by (simp add: spell_run_def)
next
  case False
  then show ?thesis unfolding spell_run_def by (simp only: if_False)
qed

lemma filter_digit_acronyms:
  assumes "acronym_runtime R"
  shows "filter is_digit (process_acronyms_in_text R text) = filter is_digit text"
proof -
  have "\<not> (is_word R None \<and> text \<noteq> [] \<and> word_char R (hd text))" by (simp add: is_word_def)
  with assms have "process_acronyms_in_text R text = spell_word_runs R text"
    unfolding process_acronyms_in_text_def by (rule sub_acronyms_word_runs)
  moreover have "filter is_digit (concat (map (spell_run R) runs)) = filter is_digit (concat runs)"
    for runs
    by (induction runs) (simp_all add: filter_digit_spell_run [OF assms])
  ultimately show ?thesis by (simp add: spell_word_runs_def concat_word_runs)
qed

lemma py_replace_char_gen:
  "py_replace [l] new s = concat (map (\<lambda>x. if x = l then new else [x]) s)"
proof (induction s)
  case Nil
  show ?case by (simp add: py_replace_Nil)
next
  case (Cons a s)
  show ?case
  proof (cases "a = l")
    case True
    have "py_replace [l] new ([l] @ s) = new @ py_replace [l] new s" by (rule py_replace_hit) simp
    with True Cons show ?thesis by simp
  next
    case False
    then have "\<not> prefix [l] (a # s)" by simp
    then have "py_replace [l] new (a # s) = a # py_replace [l] new s"
      by (intro py_replace_miss) simp_all
    with False Cons show ?thesis by simp
  qed
qed

lemma py_replace_absent: "l \<notin> set s \<Longrightarrow> py_replace [l] new s = s"
  unfolding py_replace_char_gen by (induction s) auto

lemma py_replace_once:
  "l \<notin> set a \<Longrightarrow> l \<notin> set b \<Longrightarrow> py_replace [l] new (a @ [l] @ b) = a @ new @ b"
  using py_replace_absent [of l a new] py_replace_absent [of l b new]
  by (simp add: py_replace_char_gen)

lemma split_pieces_Nil: "split_pieces sep [] = [[]]"
  by (subst split_pieces.simps) simp

lemma split_pieces_none: "sep \<noteq> [] \<Longrightarrow> hd sep \<notin> set s \<Longrightarrow> split_pieces sep s = [s]"
proof (induction s)
  case Nil
  show ?case by (rule split_pieces_Nil)
next
  case (Cons c s)
  then have "\<not> prefix sep (c # s)" by (cases sep) auto
  with Cons show ?case by (subst split_pieces.simps) simp
qed

lemma split_pieces_hit:
  "sep \<noteq> [] \<Longrightarrow> split_pieces sep (sep @ b) = [] # split_pieces sep b"
  by (subst split_pieces.simps) simp

lemma split_pieces_mid:
  "sep \<noteq> [] \<Longrightarrow> hd sep \<notin> set a \<Longrightarrow> split_pieces sep (a @ sep @ b) = a # split_pieces sep b"
proof (induction a)
  case Nil
  then show ?case by (simp add: split_pieces_hit)
next
  case (Cons c a)
  then have "\<not> prefix sep ((c # a) @ sep @ b)" by (cases sep) auto
  with Cons show ?case by (subst split_pieces.simps) simp
qed

lemma digits_strip: "list_all is_digit d \<Longrightarrow> strip d = d"
  by (rule strip_no_space) (auto simp: list_all_iff dest: space_not_digit)

lemma decimal_below_ten: "decimal c = Some d \<Longrightarrow> d < 10"
proof -
  assume a: "decimal c = Some d"
  then obtain z zs where f: "filter (\<lambda>z. z \<le> c \<and> c < z + 10) nd_zeros = z # zs" and d: "d = c - z"
    by (auto simp: decimal_def split: list.splits)
  from f have "z \<in> set (filter (\<lambda>z. z \<le> c \<and> c < z + 10) nd_zeros)" by simp
  then have "z \<le> c \<and> c < z + 10" by simp
  with d show ?thesis by arith
qed

lemma digit_value_range: "0 \<le> digit_value c \<and> digit_value c \<le> 9"
  by (auto simp: digit_value_def split: option.splits dest: decimal_below_ten)

lemma foldl_digits_bound:
  fixes acc :: int
  shows "0 \<le> acc \<Longrightarrow>
    0 \<le> foldl (\<lambda>acc c. 10 * acc + digit_value c) acc s \<and>
    foldl (\<lambda>acc c. 10 * acc + digit_value c) acc s < (acc + 1) * 10 ^ length s"
proof (induction s arbitrary: acc)
  case Nil
  then show ?case by simp
next
  case (Cons c s)
  let ?a = "10 * acc + digit_value c"
  from Cons.prems digit_value_range [of c] have a: "0 \<le> ?a" "?a + 1 \<le> (acc + 1) * 10" by simp_all
  from Cons.IH [OF a(1)] have
    1: "0 \<le> foldl (\<lambda>acc c. 10 * acc + digit_value c) ?a s"
    and 2: "foldl (\<lambda>acc c. 10 * acc + digit_value c) ?a s < (?a + 1) * 10 ^ length s"
    by simp_all
  from a(2) have "(?a + 1) * 10 ^ length s \<le> ((acc + 1) * 10) * 10 ^ length s"
    by (rule mult_right_mono) simp
  moreover have "(acc + 1) * 10 * 10 ^ length s = (acc + 1) * 10 ^ length (c # s)" by simp
  ultimately have "foldl (\<lambda>acc c. 10 * acc + digit_value c) ?a s < (acc + 1) * 10 ^ length (c # s)"
    using 2 by linarith
  with 1 show ?case by simp
qed

lemma py_int_bound: "py_int R d = Inr n \<Longrightarrow> 0 \<le> n \<and> n < 10 ^ length d"
  using foldl_digits_bound [of 0 d] by (auto simp: py_int_def split: if_splits)

lemma nines_cover: "(10::int) ^ l \<le> 10 ^ (9 * (l div 9 + 1))"
proof (rule power_increasing)
  show "l \<le> 9 * (l div 9 + 1)" by presburger
qed simp

text \<open>A digit string within the limits is converted: \<open>int\<close> accepts it, and its value
  needs one nested call for every nine digits, and three more.\<close>

lemma digits_to_words:
  assumes "d \<noteq> []" "list_all is_digit d" "within_limit R (length d)"
  shows "\<exists>n w. py_int R d = Inr n \<and> number_to_uzbek_words (Suc (frames_left R)) n = Inr w
    \<and> list_all plain_char w"
proof -
  from assms obtain n where n: "py_int R d = Inr n" by (auto simp: py_int_def within_limit_def)
  from py_int_bound [OF n] nines_cover [of "length d"]
  have b: "0 \<le> n" "n < 10 ^ (9 * (length d div 9 + 1))" by linarith+
  from assms(3) have "length d div 9 + 1 + 3 \<le> Suc (frames_left R)"
    by (simp add: within_limit_def)
  with b obtain w where w: "number_to_uzbek_words (Suc (frames_left R)) n = Inr w"
    using enough_frames [of "length d div 9 + 1" n "Suc (frames_left R)"] by auto
  from number_words_plain [OF w] n w show ?thesis by blast
qed

lemma decimal_part_ok:
  assumes "list_all is_digit d" "within_limit R (length d)"
  shows "\<exists>w. decimal_parts R [d] = Inr [w] \<and> list_all plain_char w"
proof (cases "d = []")
  case True
  have "list_all plain_char w_vergul" by (simp add: w_vergul_def plain_char_def)
  with True show ?thesis by (simp add: py_isdigit_def)
next
  case False
  from digits_to_words [OF False assms] obtain n w where
    "py_int R d = Inr n" "number_to_uzbek_words (Suc (frames_left R)) n = Inr w"
    "list_all plain_char w" by blast
  with False assms(1) show ?thesis by (simp add: py_isdigit_def digits_strip)
qed

lemma replace_number_decimal:
  assumes d1: "d1 \<noteq> []" "list_all is_digit d1" "within_limit R (length d1)"
    and d2: "list_all is_digit d2" "within_limit R (length d2)"
    and sep: "sep = 46 \<or> sep = 44"
  shows "\<exists>w. replace_number R (d1 @ [sep] @ d2) = Inr w \<and> list_all plain_char w"
proof -
  let ?v = w_sp_vergul_sp
  have v: "?v \<noteq> []" "hd ?v = 32" "46 \<notin> set ?v" "44 \<notin> set ?v"
    by (simp_all add: w_sp_vergul_sp_def w_vergul_def)
  have nd: "x \<notin> set d1" "x \<notin> set d2" if "x < 48" for x
    using d1(2) d2(1) that digit_ge_48 [of x] by (auto simp: list_all_iff)
  have r1: "py_replace [44] ?v (py_replace [46] ?v (d1 @ [sep] @ d2)) = d1 @ ?v @ d2"
  proof (cases "sep = 46")
    case True
    have "py_replace [46] ?v (d1 @ [46] @ d2) = d1 @ ?v @ d2"
      by (rule py_replace_once) (simp_all add: nd)
    moreover have "py_replace [44] ?v (d1 @ ?v @ d2) = d1 @ ?v @ d2"
      by (rule py_replace_absent) (simp add: nd v)
    ultimately show ?thesis using True by simp
  next
    case False
    with sep have s: "sep = 44" by simp
    have "py_replace [46] ?v (d1 @ [44] @ d2) = d1 @ [44] @ d2"
      by (rule py_replace_absent) (simp add: nd)
    moreover have "py_replace [44] ?v (d1 @ [44] @ d2) = d1 @ ?v @ d2"
      by (rule py_replace_once) (simp_all add: nd)
    ultimately show ?thesis using s by simp
  qed
  have "split_pieces ?v (d1 @ ?v @ d2) = d1 # split_pieces ?v d2"
    by (rule split_pieces_mid) (simp_all add: v nd)
  moreover have "split_pieces ?v d2 = [d2]"
    by (rule split_pieces_none) (simp_all add: v nd)
  ultimately have r2: "py_split_sep (d1 @ ?v @ d2) ?v = Inr [d1, d2]"
    using v(1) by (simp add: py_split_sep_def)
  from digits_to_words [OF d1] obtain n1 w1 where
    1: "py_int R d1 = Inr n1" "number_to_uzbek_words (Suc (frames_left R)) n1 = Inr w1"
    "list_all plain_char w1"
    by blast
  from decimal_part_ok [OF d2] obtain w2 where
    2: "decimal_parts R [d2] = Inr [w2]" "list_all plain_char w2" by blast
  from 1 2 d1 have r3: "decimal_parts R [d1, d2] = Inr [w1, w2]"
    by (simp add: py_isdigit_def digits_strip)
  have "sep \<in> set (d1 @ [sep] @ d2)" by simp
  with sep have c: "46 \<in> set (d1 @ [sep] @ d2) \<or> 44 \<in> set (d1 @ [sep] @ d2)" by auto
  have "replace_number R (d1 @ [sep] @ d2) = Inr (w1 @ [32] @ w2)"
    unfolding replace_number_def Let_def r1 r2 using c r3 by simp
  moreover have "list_all plain_char (w1 @ [32] @ w2)"
    using 1(3) 2(2) by (simp add: plain_char_def)
  ultimately show ?thesis by blast
qed

lemma replace_number_integer:
  assumes "d \<noteq> []" "list_all is_digit d" "within_limit R (length d)"
  shows "\<exists>w. replace_number R d = Inr w \<and> list_all plain_char w"
proof -
  have "46 \<notin> set d" "44 \<notin> set d"
    using assms(2) digit_ge_48 [of 46] digit_ge_48 [of 44] by (auto simp: list_all_iff)
  moreover from digits_to_words [OF assms] obtain n w where
    "py_int R d = Inr n" "number_to_uzbek_words (Suc (frames_left R)) n = Inr w"
    "list_all plain_char w" by blast
  ultimately show ?thesis by (simp add: replace_number_def)
qed

lemma within_limit_mono: "within_limit R m \<Longrightarrow> n \<le> m \<Longrightarrow> within_limit R n"
  using div_le_mono [of n m 9] by (auto simp: within_limit_def)

lemma digit_count_append [simp]: "digit_count (a @ b) = digit_count a + digit_count b"
  by (simp add: digit_count_def)

lemma digit_count_Cons: "digit_count (x # xs) = (if is_digit x then 1 else 0) + digit_count xs"
  by (simp add: digit_count_def)

lemma digit_count_digits: "list_all is_digit d \<Longrightarrow> digit_count d = length d"
  by (simp add: digit_count_def list_all_iff)

lemma digit_count_plain: "list_all plain_char w \<Longrightarrow> digit_count w = 0"
  by (auto simp: digit_count_def list_all_iff filter_empty_conv dest: plain_not_digit)

lemma ordinal_match_shape:
  assumes "ordinal_match s = Some (d, rest)"
  shows "s = d @ 45 # rest \<and> d \<noteq> [] \<and> list_all is_digit d"
proof -
  let ?r = "dropWhile is_digit s"
  from assms have d: "d = takeWhile is_digit s" "d \<noteq> []" and r: "?r \<noteq> []" "hd ?r = 45" "rest = tl ?r"
    by (auto simp: ordinal_match_def Let_def split: if_splits)
  from r have "?r = 45 # rest" by (cases ?r) auto
  then have "takeWhile is_digit s @ 45 # rest = s"
    using takeWhile_dropWhile_id [of is_digit s] by simp
  moreover have "list_all is_digit (takeWhile is_digit s)"
    by (auto simp: list_all_iff dest: set_takeWhileD)
  ultimately show ?thesis using d by simp
qed

lemma replace_ordinal_digits:
  "list_all is_digit d \<Longrightarrow> digit_count (replace_ordinal R d) \<le> length d"
proof -
  assume d: "list_all is_digit d"
  have h: "digit_count [45] = 0" using digit_ge_48 [of 45] by (auto simp: digit_count_def)
  have i: "digit_count w_inchi_sp = 0"
    by (rule digit_count_plain) (simp add: w_inchi_sp_def plain_char_def)
  show ?thesis
    unfolding replace_ordinal_def
    by (auto simp: h i digit_count_digits [OF d] digit_count_plain
        dest: number_words_plain split: sum.splits)
qed

lemma sub_ordinals_digits: "digit_count (sub_ordinals R s) \<le> digit_count s"
proof (induction s rule: length_induct)
  case (1 s)
  show ?case
  proof (cases s)
    case Nil
    then show ?thesis by simp
  next
    case (Cons c cs)
    show ?thesis
    proof (cases "ordinal_match (c # cs)")
      case None
      from 1 Cons have "digit_count (sub_ordinals R cs) \<le> digit_count cs" by simp
      with None Cons show ?thesis by (simp add: digit_count_def)
    next
      case (Some p)
      obtain d rest where p: "p = (d, rest)" by (cases p)
      from ordinal_match_shape [OF Some [unfolded p]]
      have s: "c # cs = d @ 45 # rest" and d: "list_all is_digit d" by simp_all
      have "digit_count (c # cs) = length d + digit_count (45 # rest)"
        unfolding s by (simp add: digit_count_digits [OF d])
      moreover have "digit_count (45 # rest) = digit_count rest"
        using digit_ge_48 [of 45] by (auto simp: digit_count_def)
      moreover have "length rest < length s"
        using ordinal_match_shorter [OF Some [unfolded p]] Cons by simp
      with 1 have "digit_count (sub_ordinals R rest) \<le> digit_count rest" by blast
      moreover note replace_ordinal_digits [OF d, of R]
      ultimately show ?thesis using Some p Cons by simp
    qed
  qed
qed

lemma number_match_shape:
  assumes "number_match s = Some (m, rest)"
  shows "s = m @ rest \<and> (\<exists>d1 d2. d1 \<noteq> [] \<and> list_all is_digit d1 \<and> list_all is_digit d2 \<and>
           (m = d1 \<or> (\<exists>sep. (sep = 46 \<or> sep = 44) \<and> m = d1 @ [sep] @ d2)))"
proof -
  let ?d1 = "takeWhile is_digit s" and ?r1 = "dropWhile is_digit s"
  have tw: "list_all is_digit (takeWhile is_digit xs)" for xs
    by (auto simp: list_all_iff dest: set_takeWhileD)
  from assms have d1: "?d1 \<noteq> []" by (auto simp: number_match_def Let_def split: if_splits)
  have id: "?d1 @ ?r1 = s" by simp
  show ?thesis
  proof (cases "?r1 \<noteq> [] \<and> (hd ?r1 = 46 \<or> hd ?r1 = 44)")
    case True
    let ?d2 = "takeWhile is_digit (tl ?r1)"
    from True assms d1 have m: "m = ?d1 @ [hd ?r1] @ ?d2" and r: "rest = dropWhile is_digit (tl ?r1)"
      by (simp_all add: number_match_def Let_def)
    from True have "?r1 = hd ?r1 # tl ?r1" by simp
    then have "s = ?d1 @ hd ?r1 # tl ?r1" using id by simp
    moreover have "tl ?r1 = ?d2 @ rest" unfolding r by simp
    ultimately have "s = m @ rest" unfolding m by simp
    with True m d1 tw show ?thesis by blast
  next
    case False
    with assms d1 have mr: "m = ?d1" "rest = ?r1"
      by (auto simp: number_match_def Let_def split: if_splits)
    then have "s = m @ rest" by simp
    moreover have "\<exists>d1 d2. d1 \<noteq> [] \<and> list_all is_digit d1 \<and> list_all is_digit d2 \<and>
           (m = d1 \<or> (\<exists>sep. (sep = 46 \<or> sep = 44) \<and> m = d1 @ [sep] @ d2))"
      by (intro exI [of _ ?d1] exI [of _ "[]"]) (simp add: mr d1 tw)
    ultimately show ?thesis by blast
  qed
qed

lemma sub_numbers_ok:
  "within_limit R (digit_count s) \<Longrightarrow>
   \<exists>out. sub_numbers R s = Inr out \<and> list_all (\<lambda>c. \<not> is_digit c) out"
proof (induction s rule: length_induct)
  case (1 s)
  note IH = "1.IH" [rule_format]
  show ?case
  proof (cases s)
    case Nil
    then show ?thesis by simp
  next
    case (Cons c cs)
    show ?thesis
    proof (cases "number_match (c # cs)")
      case None
      then have c: "\<not> is_digit c" by (auto simp: number_match_def Let_def split: if_splits)
      then have "digit_count cs = digit_count (c # cs)" by (simp add: digit_count_def)
      with "1.prems" Cons have "within_limit R (digit_count cs)" by simp
      with IH [of cs] Cons obtain out where
        "sub_numbers R cs = Inr out" "list_all (\<lambda>c. \<not> is_digit c) out" by auto
      with None c Cons show ?thesis by simp
    next
      case (Some p)
      obtain m rest where p: "p = (m, rest)" by (cases p)
      from number_match_shape [OF Some [unfolded p]] obtain d1 d2 where
        s: "c # cs = m @ rest" and d: "d1 \<noteq> []" "list_all is_digit d1" "list_all is_digit d2"
        and m: "m = d1 \<or> (\<exists>sep. (sep = 46 \<or> sep = 44) \<and> m = d1 @ [sep] @ d2)"
        by blast
      have lim: "within_limit R n" if "n \<le> digit_count m" for n
      proof -
        have "digit_count m \<le> digit_count (c # cs)" unfolding s by simp
        with that have "n \<le> digit_count s" using Cons by simp
        with "1.prems" show ?thesis using within_limit_mono by blast
      qed
      have "\<exists>w. replace_number R m = Inr w \<and> list_all plain_char w"
      proof -
        from m consider "m = d1" | sep where "sep = 46 \<or> sep = 44" "m = d1 @ [sep] @ d2" by blast
        then show ?thesis
        proof cases
          case 1
          with d(2) have "within_limit R (length d1)" by (intro lim) (simp add: digit_count_digits)
          with 1 d show ?thesis by (simp add: replace_number_integer)
        next
          case 2
          have l: "within_limit R (length d1)" "within_limit R (length d2)"
            using d(2,3) 2(2) by (auto intro!: lim simp: digit_count_digits digit_count_Cons)
          show ?thesis unfolding 2(2)
            by (rule replace_number_decimal [OF d(1,2) l(1) d(3) l(2) 2(1)])
        qed
      qed
      then obtain w where w: "replace_number R m = Inr w" "list_all plain_char w" by blast
      have "digit_count rest \<le> digit_count (c # cs)" unfolding s by simp
      with "1.prems" Cons have "within_limit R (digit_count rest)" using within_limit_mono by blast
      moreover have "length rest < length s"
        using number_match_shorter [OF Some [unfolded p]] Cons by simp
      ultimately obtain out where
        o: "sub_numbers R rest = Inr out" "list_all (\<lambda>c. \<not> is_digit c) out"
        using IH [of rest] by blast
      from w(2) have "list_all (\<lambda>c. \<not> is_digit c) w"
        by (auto simp: list_all_iff dest: plain_not_digit)
      with Some p w(1) o Cons show ?thesis by simp
    qed
  qed
qed

lemma convert_numbers_ok:
  assumes "within_limit R (digit_count text)"
  shows "\<exists>out. convert_numbers_in_text R text = Inr out \<and> list_all (\<lambda>c. \<not> is_digit c) out"
proof -
  from assms sub_ordinals_digits [of R "text"] have "within_limit R (digit_count (sub_ordinals R text))"
    using within_limit_mono by blast
  then show ?thesis unfolding convert_numbers_in_text_def by (rule sub_numbers_ok)
qed

lemma py_replace_set:
  assumes "old \<noteq> []"
  shows "set (py_replace old new s) \<subseteq> set s \<union> set new"
proof (induction s rule: length_induct)
  case (1 s)
  show ?case
  proof (cases s)
    case Nil
    with assms show ?thesis by (simp add: py_replace_Nil)
  next
    case (Cons c cs)
    show ?thesis
    proof (cases "prefix old s")
      case True
      then obtain rest where s: "s = old @ rest" by (auto simp: prefix_def)
      with assms have "length rest < length s" by simp
      with 1 have "set (py_replace old new rest) \<subseteq> set rest \<union> set new" by blast
      with assms show ?thesis unfolding s by (auto simp: py_replace_hit)
    next
      case False
      with Cons assms have "py_replace old new s = c # py_replace old new cs"
        by (simp add: py_replace_miss)
      moreover from 1 Cons have "set (py_replace old new cs) \<subseteq> set cs \<union> set new" by simp
      ultimately show ?thesis using Cons by auto
    qed
  qed
qed

lemma foldl_table_set:
  "\<forall>(l, c)\<in>set tbl. l \<noteq> [] \<Longrightarrow>
   x \<in> set (foldl (\<lambda>r (l, c). if P l then py_replace l c r else r) s tbl) \<Longrightarrow>
   x \<in> set s \<or> (\<exists>(l, c)\<in>set tbl. x \<in> set c)"
proof (induction tbl arbitrary: s)
  case Nil
  then show ?case by simp
next
  case (Cons e tbl)
  obtain l c where e: "e = (l, c)" by (cases e)
  let ?s = "if P l then py_replace l c s else s"
  from Cons.prems(1) e have l: "l \<noteq> []" and t: "\<forall>(l, c)\<in>set tbl. l \<noteq> []" by simp_all
  from Cons.prems(2) e have "x \<in> set (foldl (\<lambda>r (l, c). if P l then py_replace l c r else r) ?s tbl)"
    by simp
  from Cons.IH [OF t this] have "x \<in> set ?s \<or> (\<exists>(l, c)\<in>set tbl. x \<in> set c)" .
  moreover have "set ?s \<subseteq> set s \<union> set c" using py_replace_set [OF l] by auto
  ultimately show ?case using e by auto
qed

lemma table_values:
  "\<forall>(l, c)\<in>set LATIN_TO_CYRILLIC. l \<noteq> [] \<and> (\<forall>x\<in>set c. 1025 \<le> x \<and> x \<le> 1203)"
  by (simp add: LATIN_TO_CYRILLIC_def)

lemma normalize_apostrophes_set:
  "x \<in> set (normalize_apostrophes s) \<Longrightarrow> x \<in> set s \<or> x = 39"
proof -
  have r: "set (py_replace [v] [39] t) \<subseteq> set t \<union> {39}" for v t
    using py_replace_set [of "[v]" "[39]" t] by simp
  assume "x \<in> set (normalize_apostrophes s)"
  then show ?thesis
    unfolding normalize_apostrophes_def apostrophe_variants_def foldl.simps
    using r by blast
qed

lemma latin_to_cyrillic_set:
  assumes "x \<in> set (latin_to_cyrillic s)"
  shows "x \<in> set s \<or> x = 39 \<or> (1025 \<le> x \<and> x \<le> 1203)"
proof -
  from table_values have t: "\<forall>(l, c)\<in>set LATIN_TO_CYRILLIC. l \<noteq> []" by auto
  from table_values have v: "(\<exists>(l, c)\<in>set LATIN_TO_CYRILLIC. x \<in> set c) \<Longrightarrow> 1025 \<le> x \<and> x \<le> 1203"
    by fastforce
  from assms have a: "x \<in> set (foldl (\<lambda>r (l, c). if length l = 1 then py_replace l c r else r)
      (replace_multi (normalize_apostrophes s)) LATIN_TO_CYRILLIC)"
    unfolding latin_to_cyrillic_def replace_single_def .
  from foldl_table_set [OF t a] v
  have 1: "x \<in> set (replace_multi (normalize_apostrophes s)) \<or> (1025 \<le> x \<and> x \<le> 1203)"
    by blast
  have 2: "x \<in> set (normalize_apostrophes s) \<or> (1025 \<le> x \<and> x \<le> 1203)"
    if b: "x \<in> set (replace_multi (normalize_apostrophes s))"
  proof -
    from b have "x \<in> set (foldl (\<lambda>r (l, c). if length l > 1 then py_replace l c r else r)
      (normalize_apostrophes s) LATIN_TO_CYRILLIC)"
      unfolding replace_multi_def .
    from foldl_table_set [OF t this] v show ?thesis by blast
  qed
  from 1 2 normalize_apostrophes_set [of x s] show ?thesis by blast
qed

lemma latin_to_cyrillic_digits:
  assumes "\<forall>x\<in>set s. \<not> is_digit x"
  shows "\<forall>x\<in>set (latin_to_cyrillic s). \<not> is_digit x"
proof
  fix x assume "x \<in> set (latin_to_cyrillic s)"
  from latin_to_cyrillic_set [OF this] assms show "\<not> is_digit x"
    using digit_ge_48 [of x] digit_not_mid [of x] by auto
qed

lemma foldl_single_removes:
  "\<forall>(l, c)\<in>set tbl. l \<noteq> [] \<and> x \<notin> set c \<Longrightarrow> [x] \<in> fst ` set tbl \<Longrightarrow>
   x \<notin> set (foldl (\<lambda>r (l, c). if length l = 1 then py_replace l c r else r) s tbl)"
proof (induction tbl arbitrary: s)
  case Nil
  then show ?case by simp
next
  case (Cons e tbl)
  obtain l c where e: "e = (l, c)" by (cases e)
  let ?step = "\<lambda>r (l, c). if length l = 1 then py_replace l c r else r"
  let ?s = "if length l = 1 then py_replace l c s else s"
  from Cons.prems(1) e have c: "x \<notin> set c" and t: "\<forall>(l, c)\<in>set tbl. l \<noteq> [] \<and> x \<notin> set c"
    by simp_all
  show ?case
  proof (cases "l = [x]")
    case True
    then have "?s = concat (map (\<lambda>y. if y = x then c else [y]) s)"
      by (simp add: py_replace_char_gen)
    with c have "x \<notin> set ?s" by auto
    moreover from t have t': "\<forall>(l, c)\<in>set tbl. l \<noteq> []" by auto
    have "x \<in> set ?s \<or> (\<exists>(l, c)\<in>set tbl. x \<in> set c)" if "x \<in> set (foldl ?step ?s tbl)"
      using foldl_table_set [OF t' that] .
    ultimately have "x \<notin> set (foldl ?step ?s tbl)"
      using t by blast
    with e show ?thesis by simp
  next
    case False
    with Cons.prems(2) e have "[x] \<in> fst ` set tbl" by auto
    from Cons.IH [OF t this, of ?s] e show ?thesis by simp
  qed
qed

lemma single_keys:
  assumes "ascii_letter x" "x \<noteq> 99" "x \<noteq> 67" "x \<noteq> 119" "x \<noteq> 87"
  shows "[x] \<in> fst ` set LATIN_TO_CYRILLIC"
proof -
  let ?P = "\<lambda>x. x = 99 \<or> x = 67 \<or> x = 119 \<or> x = 87 \<or> map_of LATIN_TO_CYRILLIC [x] \<noteq> None"
  have 1: "list_all ?P [65..<91]" by (simp add: LATIN_TO_CYRILLIC_def)
  have 2: "list_all ?P [97..<123]" by (simp add: LATIN_TO_CYRILLIC_def)
  from assms(1) consider "x \<in> set [65..<91]" | "x \<in> set [97..<123]"
    unfolding ascii_letter_def set_upt by auto
  then have "?P x"
  proof cases
    case 1 with \<open>list_all ?P [65..<91]\<close> show ?thesis unfolding list_all_iff by blast
  next
    case 2 with \<open>list_all ?P [97..<123]\<close> show ?thesis unfolding list_all_iff by blast
  qed
  with assms have "map_of LATIN_TO_CYRILLIC [x] \<noteq> None" by simp
  then show ?thesis by (simp add: map_of_eq_None_iff)
qed

lemma replace_single_latin:
  assumes "x \<in> set (replace_single s)" "ascii_letter x"
  shows "x = 99 \<or> x = 67 \<or> x = 119 \<or> x = 87"
proof (rule ccontr)
  assume "\<not> ?thesis"
  with assms(2) have k: "[x] \<in> fst ` set LATIN_TO_CYRILLIC" by (intro single_keys) simp_all
  from assms(2) table_values have "\<forall>(l, c)\<in>set LATIN_TO_CYRILLIC. l \<noteq> [] \<and> x \<notin> set c"
    unfolding ascii_letter_def by fastforce
  from foldl_single_removes [OF this k] assms(1) show False
    unfolding replace_single_def by blast
qed

lemmas num_eval = convert_numbers_in_text_def ordinal_match_def number_match_def
  is_digit_def decimal_def nd_zeros_def digit_value_def replace_number_def py_int_def nuw_eval

lemmas script_eval = transliterate_if_latin_def latin_count_def cyrillic_count_def is_latin_def
  is_cyrillic_def

lemma latin_cyrillic_limit: "int_max_str_digits latin_cyrillic_runtime = 4300"
  by (simp add: latin_cyrillic_runtime_def)

lemma normalize_doc: "normalize latin_cyrillic_runtime (asc ''doc'') = Inr ([1076, 1086, 99], True)"
proof -
  have 1: "process_acronyms_in_text latin_cyrillic_runtime (asc ''doc'') = asc ''doc''"
    by (simp add: acr_eval)
  have 2: "convert_numbers_in_text latin_cyrillic_runtime (asc ''doc'') = Inr (asc ''doc'')"
    by (simp add: num_eval asc_def)
  have 3: "transliterate_if_latin (asc ''doc'') = (latin_to_cyrillic (asc ''doc''), True)"
    by (simp add: script_eval asc_def)
  show ?thesis by (simp add: normalize_def 1 2 3 translit_doc)
qed

lemma normalize_usa:
  "normalize latin_cyrillic_runtime (asc ''USA 25 yil'')
     = Inr ([1091, 45, 1101, 1089, 45, 1072, 32, 1081, 1080, 1075, 1080, 1088, 1084, 1072, 32,
             1073, 1077, 1096, 32, 121, 105, 108], False)"
proof -
  have 1: "process_acronyms_in_text latin_cyrillic_runtime (asc ''USA 25 yil'')
      = [1091, 45, 1101, 1089, 45, 1072, 32, 50, 53, 32, 121, 105, 108]"
    by (simp add: acr_eval)
  have 2: "convert_numbers_in_text latin_cyrillic_runtime
        [1091, 45, 1101, 1089, 45, 1072, 32, 50, 53, 32, 121, 105, 108]
      = Inr [1091, 45, 1101, 1089, 45, 1072, 32, 1081, 1080, 1075, 1080, 1088, 1084, 1072, 32,
             1073, 1077, 1096, 32, 121, 105, 108]"
    by (simp add: num_eval latin_cyrillic_limit)
  have 3: "transliterate_if_latin
        [1091, 45, 1101, 1089, 45, 1072, 32, 1081, 1080, 1075, 1080, 1088, 1084, 1072, 32,
             1073, 1077, 1096, 32, 121, 105, 108]
      = ([1091, 45, 1101, 1089, 45, 1072, 32, 1081, 1080, 1075, 1080, 1088, 1084, 1072, 32,
             1073, 1077, 1096, 32, 121, 105, 108], False)"
    by (simp add: script_eval)
  show ?thesis by (simp add: normalize_def 1 2 3)
qed

lemma normalize_mixed:
  "normalize latin_cyrillic_runtime [1084, 1077, 1085, 1080, 32, 121, 105, 108]
     = Inr ([1084, 1077, 1085, 1080, 32, 121, 105, 108], False)"
proof -
  have 1: "process_acronyms_in_text latin_cyrillic_runtime [1084, 1077, 1085, 1080, 32, 121, 105, 108]
      = [1084, 1077, 1085, 1080, 32, 121, 105, 108]"
    by (simp add: acr_eval)
  have 2: "convert_numbers_in_text latin_cyrillic_runtime [1084, 1077, 1085, 1080, 32, 121, 105, 108]
      = Inr [1084, 1077, 1085, 1080, 32, 121, 105, 108]"
    by (simp add: num_eval)
  have 3: "transliterate_if_latin [1084, 1077, 1085, 1080, 32, 121, 105, 108]
      = ([1084, 1077, 1085, 1080, 32, 121, 105, 108], False)"
    by (simp add: script_eval)
  show ?thesis by (simp add: normalize_def 1 2 3)
qed

section \<open>Claims about the chunker\<close>

text \<open>
  C1. Claim: for every input and ceiling, joining the chunks of \<open>split_text\<close> with single
  spaces reproduces the non-white-space content of the input, also when a sentence
  longer than the ceiling arrives while a partial chunk has been accumulated.

  The code does not do this: for a sentence longer than the ceiling, \<open>split_text\<close> takes
  the chunks of \<open>_split_by_words\<close> and then sets \<open>current_chunk = ""\<close> without appending
  the chunk it was holding. On the input \<open>"Hi. "\<close> followed by 2001 times \<open>a\<close>, with the
  ceiling 2000, the result is 2000 times \<open>a\<close> and one \<open>a\<close>: the content \<open>Hi.\<close> is lost.
\<close>

theorem split_text_drops_open_chunk:
  "split_text (asc ''Hi. '' @ replicate 2001 97) 2000 = Inr [replicate 2000 97, [97]]
   \<and> content (py_join (asc '' '') [replicate 2000 97, [97]]) = replicate 2000 97 @ [97]
   \<and> content (asc ''Hi. '' @ replicate 2001 97) = asc ''Hi.'' @ replicate 2001 97
   \<and> replicate 2000 97 @ [97] \<noteq> asc ''Hi.'' @ replicate 2001 97"
proof -
  have n: "\<not> is_space 97" "\<not> is_space 72" "\<not> is_space 105" "\<not> is_space 46" "is_space 32"
    by (simp_all add: is_space_def)
  have 1: "content (py_join (asc '' '') [replicate 2000 97, [97]]) = replicate 2000 97 @ [97]"
    by (simp add: content_def asc_def n)
  have 2: "content (asc ''Hi. '' @ replicate 2001 97) = asc ''Hi.'' @ replicate 2001 97"
    by (simp add: content_def asc_def n)
  have "length (replicate 2000 97 @ [97::nat]) \<noteq> length (asc ''Hi.'' @ replicate 2001 97)"
    by (simp add: asc_def)
  then have 3: "replicate 2000 97 @ [97] \<noteq> asc ''Hi.'' @ replicate 2001 97"
    by (rule contrapos_nn) simp
  from eval_long_word 1 2 3 show ?thesis by blast
qed

text \<open>
  C6, as amended. A blank input (empty or white space only) gives no chunk. An input of
  at most the ceiling (\<open>max_length\<close> raised to 2000) that is not blank gives exactly one
  chunk, the input itself as it is, not trimmed. In every case \<open>split_text\<close> returns, and
  every chunk is non-empty and not blank; when the input is longer than the ceiling,
  every chunk is trimmed.
\<close>

theorem split_text_one_chunk_as_is:
  "(strip text = [] \<longrightarrow> split_text text ml = Inr []) \<and>
   (strip text \<noteq> [] \<and> int (length text) \<le> max 2000 ml \<longrightarrow> split_text text ml = Inr [text]) \<and>
   (\<exists>chunks. split_text text ml = Inr chunks \<and>
      (\<forall>c\<in>set chunks. c \<noteq> [] \<and> strip c \<noteq> [] \<and>
         (max 2000 ml < int (length text) \<longrightarrow> strip c = c)))"
proof (intro conjI impI)
  assume "strip text = []"
  then show "split_text text ml = Inr []" by (rule split_text_blank)
next
  assume "strip text \<noteq> [] \<and> int (length text) \<le> max 2000 ml"
  then show "split_text text ml = Inr [text]" by (simp add: split_text_short)
next
  consider (blank) "strip text = []"
    | (short) "strip text \<noteq> []" "int (length text) \<le> max 2000 ml"
    | (long) "strip text \<noteq> []" "int (length text) > max 2000 ml"
    by linarith
  then show "\<exists>chunks. split_text text ml = Inr chunks \<and>
      (\<forall>c\<in>set chunks. c \<noteq> [] \<and> strip c \<noteq> [] \<and>
         (max 2000 ml < int (length text) \<longrightarrow> strip c = c))"
  proof cases
    case blank
    then show ?thesis by (simp add: split_text_blank)
  next
    case short
    then have ne: "text \<noteq> []" by auto
    from short(2) have "\<not> max 2000 ml < int (length text)" by linarith
    then have n: "(max 2000 ml < int (length text)) = False" by (rule eq_False [THEN iffD2])
    from short have r: "split_text text ml = Inr [text]" by (rule split_text_short)
    show ?thesis unfolding r n using ne short(1) by simp
  next
    case long
    from split_text_chunks [OF long] obtain chunks where
      c: "split_text text ml = Inr chunks"
         "\<forall>c\<in>set chunks. strip c \<noteq> [] \<and> strip c = c \<and> int (length c) < max 2000 ml + 2000"
      by blast
    from c(2) have "\<forall>c\<in>set chunks. c \<noteq> [] \<and> strip c \<noteq> [] \<and>
         (max 2000 ml < int (length text) \<longrightarrow> strip c = c)" by auto
    with c(1) show ?thesis by blast
  qed
qed

text \<open>The theorem at a blank input, at a short input with a leading space, and at an
  input of 2001 characters with the ceiling 2000.\<close>

theorem split_text_one_chunk_as_is_witness:
  "split_text (asc ''   '') 3000 = Inr [] \<and> split_text (asc '' a'') 3000 = Inr [asc '' a'']
   \<and> strip (replicate 1997 97 @ asc ''. bb'') = replicate 1997 97 @ asc ''. bb''"
proof -
  have b: "strip (asc ''   '') = []" by (simp add: asc_def strip_Nil_iff is_space_def)
  have s: "strip (asc '' a'') \<noteq> [] \<and> int (length (asc '' a'')) \<le> max 2000 3000"
    by (simp add: asc_def strip_Nil_iff is_space_def)
  have l: "max 2000 2000 < int (length (replicate 1997 97 @ asc ''. bb''))"
    by (simp add: asc_def)
  from split_text_one_chunk_as_is [of "replicate 1997 97 @ asc ''. bb''" 2000] l
  have "strip (replicate 1997 97 @ asc ''. bb'') = replicate 1997 97 @ asc ''. bb''"
    unfolding eval_floor_rule by simp
  with split_text_one_chunk_as_is [of "asc ''   ''" 3000]
    split_text_one_chunk_as_is [of "asc '' a''" 3000] b s
  show ?thesis by blast
qed

text \<open>
  C6 as stated fails: the input \<open>" a"\<close> is within the ceiling and its trimmed form
  \<open>"a"\<close> is not empty, yet the one chunk returned is the input with its leading space.
\<close>

theorem split_text_short_not_trimmed:
  "int (length (asc '' a'')) \<le> max 2000 3000 \<and> strip (asc '' a'') \<noteq> []
   \<and> split_text (asc '' a'') 3000 = Inr [asc '' a'']
   \<and> split_text (asc '' a'') 3000 \<noteq> Inr [strip (asc '' a'')]"
proof -
  have "strip (asc '' a'') = asc ''a''"
    by (simp add: asc_def strip_def is_space_def)
  then show ?thesis by (simp add: eval_untrimmed) (simp add: asc_def)
qed

text \<open>
  C7, as amended. Every chunk of \<open>split_text\<close> is shorter than the ceiling plus 2000: a
  chunk exceeds the ceiling only where the floor rule kept appending a sentence of at
  most the ceiling to a chunk shorter than 2000. No single unit forces an excess: the
  chunks that \<open>_split_by_words\<close> cuts from a sentence longer than the ceiling, forced
  slices of an overlong word included, have at most the ceiling.
\<close>

theorem chunk_length_bounds:
  "(\<exists>chunks. split_text text ml = Inr chunks \<and>
      (\<forall>c\<in>set chunks. int (length c) < max 2000 ml + 2000)) \<and>
   (0 < M \<longrightarrow> (\<exists>cs. split_by_words s M = Inr cs \<and> (\<forall>c\<in>set cs. length c \<le> M)))"
proof (intro conjI impI)
  consider (blank) "strip text = []"
    | (short) "strip text \<noteq> []" "int (length text) \<le> max 2000 ml"
    | (long) "strip text \<noteq> []" "int (length text) > max 2000 ml"
    by linarith
  then show "\<exists>chunks. split_text text ml = Inr chunks \<and>
      (\<forall>c\<in>set chunks. int (length c) < max 2000 ml + 2000)"
  proof cases
    case blank
    then show ?thesis by (simp add: split_text_blank)
  next
    case short
    then show ?thesis by (simp add: split_text_short)
  next
    case long
    from split_text_chunks [OF long] show ?thesis by blast
  qed
next
  assume "0 < M"
  from split_by_words_ok [OF this, of s]
  show "\<exists>cs. split_by_words s M = Inr cs \<and> (\<forall>c\<in>set cs. length c \<le> M)" by blast
qed

theorem chunk_length_bounds_witness:
  "split_text (replicate 1997 97 @ asc ''. bb'') 2000 = Inr [replicate 1997 97 @ asc ''. bb'']
   \<and> int (length (replicate 1997 97 @ asc ''. bb'')) < max 2000 2000 + 2000
   \<and> (0::nat) < 2000
   \<and> split_by_words (replicate 2001 97) 2000 = Inr [replicate 2000 97, [97]]
   \<and> length (replicate 2000 (97::nat)) \<le> 2000 \<and> length [97::nat] \<le> 2000"
proof -
  from chunk_length_bounds [of "replicate 1997 97 @ asc ''. bb''" 2000 2000 "replicate 2001 97"]
  have "int (length (replicate 1997 97 @ asc ''. bb'')) < max 2000 2000 + 2000"
    and "length (replicate 2000 (97::nat)) \<le> 2000 \<and> length [97::nat] \<le> 2000"
    unfolding eval_floor_rule split_by_words_long_word by simp_all
  with eval_floor_rule split_by_words_long_word show ?thesis by simp
qed

text \<open>
  C7 as stated fails: with the ceiling 2000, a sentence of 1999 characters followed by
  a sentence of 2 characters gives one chunk of 2001 characters, although neither
  sentence exceeds the ceiling.
\<close>

theorem floor_rule_exceeds_ceiling:
  "reconstruct (re_split (replicate 1997 97 @ asc ''. bb''))
     = [replicate 1997 97 @ asc ''. '', asc ''bb'']
   \<and> length (replicate 1997 (97::nat) @ asc ''. '') = 1999 \<and> length (asc ''bb'') = 2
   \<and> split_text (replicate 1997 97 @ asc ''. bb'') 2000 = Inr [replicate 1997 97 @ asc ''. bb'']
   \<and> length (replicate 1997 (97::nat) @ asc ''. bb'') = 2001"
  using sentences_floor_rule eval_floor_rule by (simp add: asc_def)


section \<open>Claims about the number words\<close>

text \<open>
  C9. \<open>number_to_uzbek_words\<close> satisfies the reference equalities. The function calls
  itself, once for every factor \<open>10^9\<close> of its argument and a few times below that, and
  the interpreter raises \<open>RecursionError\<close> when the frames run out; the first argument
  of the model is the number of frames the call may use, its own included. With at
  least one frame 0 gives \<open>nol\<close>, 1000 gives \<open>ming\<close> and 100 gives \<open>yuz\<close>, without the
  word for one, and 42 gives \<open>qirq ikki\<close>; with two frames 2023 gives
  \<open>ikki ming yigirma uch\<close>. For every \<open>n > 0\<close> the call at \<open>-n\<close> is one call at \<open>n\<close> in the
  next frame, with \<open>minus\<close> and a space before its words, or with its error. For
  \<open>0 < n < 10^(9j)\<close>, \<open>j \<ge> 1\<close>, \<open>j + 3\<close> frames are enough for \<open>n\<close>, so the call at \<open>n\<close>
  returns words \<open>w\<close> and the call at \<open>-n\<close>, with one frame more, returns \<open>minus\<close>, a space
  and \<open>w\<close>; the documented domain, up to 999999999, is \<open>j = 1\<close>. The words are the
  Cyrillic strings of the source.
\<close>

theorem number_to_uzbek_words_reference:
  "number_to_uzbek_words (Suc k) 0 = Inr [1085, 1086, 1083] \<and>
   (0 < n \<longrightarrow>
      number_to_uzbek_words (Suc k) (- n) =
        (case number_to_uzbek_words k n of
           Inl e \<Rightarrow> Inl e
         | Inr w \<Rightarrow> Inr ([1084, 1080, 1085, 1091, 1089, 32] @ w))) \<and>
   (0 < n \<and> n < 10 ^ (9 * j) \<and> 1 \<le> j \<and> j + 3 \<le> k \<longrightarrow>
      (\<exists>w. number_to_uzbek_words k n = Inr w \<and>
           number_to_uzbek_words (Suc k) (- n) = Inr ([1084, 1080, 1085, 1091, 1089, 32] @ w))) \<and>
   number_to_uzbek_words (Suc k) 1000 = Inr [1084, 1080, 1085, 1075] \<and>
   number_to_uzbek_words (Suc k) 100 = Inr [1102, 1079] \<and>
   number_to_uzbek_words (Suc k) 42 = Inr [1179, 1080, 1088, 1179, 32, 1080, 1082, 1082, 1080] \<and>
   number_to_uzbek_words (Suc (Suc k)) 2023 =
     Inr [1080, 1082, 1082, 1080, 32, 1084, 1080, 1085, 1075, 32,
          1081, 1080, 1075, 1080, 1088, 1084, 1072, 32, 1091, 1095]"
proof -
  have neg: "number_to_uzbek_words (Suc k) (- n) =
        (case number_to_uzbek_words k n of
           Inl e \<Rightarrow> Inl e
         | Inr w \<Rightarrow> Inr ([1084, 1080, 1085, 1091, 1089, 32] @ w))" if "0 < n"
    using that nuw_neg [of "- n" k] unfolding w_minus_sp_def by simp
  have "\<exists>w. number_to_uzbek_words k n = Inr w \<and>
           number_to_uzbek_words (Suc k) (- n) = Inr ([1084, 1080, 1085, 1091, 1089, 32] @ w)"
    if "0 < n" "n < 10 ^ (9 * j)" "1 \<le> j" "j + 3 \<le> k"
  proof -
    from that have "0 \<le> n" by simp
    from enough_frames [OF that(3) this that(2) that(4)]
    obtain w where w: "number_to_uzbek_words k n = Inr w" ..
    with neg [OF that(1)] show ?thesis by simp
  qed
  with neg nuw_eval(1,2,3,4,8) [of k] show ?thesis by blast
qed

text \<open>The theorem at \<open>n = 5\<close>, \<open>j = 1\<close> and four frames: \<open>besh\<close> and \<open>minus besh\<close>.\<close>

theorem number_to_uzbek_words_reference_witness:
  "(0::int) < 5 \<and> (5::int) < 10 ^ (9 * 1) \<and> (1::nat) \<le> 1 \<and> (1::nat) + 3 \<le> 4
   \<and> number_to_uzbek_words 4 5 = Inr [1073, 1077, 1096]
   \<and> number_to_uzbek_words (Suc 4) (- 5) = Inr [1084, 1080, 1085, 1091, 1089, 32, 1073, 1077, 1096]"
proof -
  have "number_to_uzbek_words (Suc 3) 5 = Inr [1073, 1077, 1096]" by (rule nuw_eval)
  moreover have "Suc 3 = 4" by simp
  ultimately have 5: "number_to_uzbek_words 4 5 = Inr [1073, 1077, 1096]" by simp
  have h: "(0::int) < 5 \<and> (5::int) < 10 ^ (9 * 1) \<and> (1::nat) \<le> 1 \<and> (1::nat) + 3 \<le> 4"
    by simp
  with number_to_uzbek_words_reference [of 4 5 1]
  have "\<exists>w. number_to_uzbek_words 4 5 = Inr w \<and>
       number_to_uzbek_words (Suc 4) (- 5) = Inr ([1084, 1080, 1085, 1091, 1089, 32] @ w)"
    by blast
  with 5 h show ?thesis by auto
qed

text \<open>
  C3. Claim: in \<open>convert_numbers_in_text\<close> a digit run with one decimal separator and
  digits on both sides, such as \<open>3.5\<close>, becomes the words of the left side, the spoken
  comma \<open>vergul\<close>, and the words of the right side.

  The code does not do this: \<open>replace_number\<close> replaces the separator by \<open>" vergul "\<close>
  and then splits at that very string, which removes it again; the word is only put
  back for an empty part. So \<open>3.5\<close> gives \<open>uch besh\<close>, the same words as \<open>3 5\<close>, while
  \<open>3.\<close> gives \<open>uch vergul\<close>. This holds for every runtime \<open>R\<close>.
\<close>

theorem decimal_point_word_is_lost:
  "convert_numbers_in_text R (asc ''3.5'') = Inr [1091, 1095, 32, 1073, 1077, 1096]
   \<and> [1091, 1095, 32, 1073, 1077, 1096]
       \<noteq> [1091, 1095, 32, 1074, 1077, 1088, 1075, 1091, 1083, 32, 1073, 1077, 1096 :: nat]
   \<and> convert_numbers_in_text R (asc ''3.'')
       = Inr [1091, 1095, 32, 1074, 1077, 1088, 1075, 1091, 1083]"
  using convert_3_5 [of R] convert_3_dot [of R] by simp


section \<open>Claims about the transliteration\<close>

text \<open>
  C5. Claim: every apostrophe variant gives the same transliteration as the ASCII
  apostrophe, in particular \<open>o'zbek\<close> written with U+2018, the left single quotation
  mark.

  The code does not do this: the list \<open>apostrophe_variants\<close> of the source holds U+0027
  three times, then U+0060, U+02BB and U+02BC, and neither U+2018 nor U+2019. So the
  word written with U+2018 keeps that character and its \<open>o\<close> becomes the plain Cyrillic
  \<open>o\<close>, while U+0027 and U+02BB give the letter U+045E.
\<close>

theorem left_quotation_mark_is_kept:
  "latin_to_cyrillic (asc ''o'' @ [8216] @ asc ''zbek'') = [1086, 8216, 1079, 1073, 1077, 1082]
   \<and> latin_to_cyrillic (asc ''o'' @ [39] @ asc ''zbek'') = [1118, 1079, 1073, 1077, 1082]
   \<and> latin_to_cyrillic (asc ''o'' @ [699] @ asc ''zbek'') = [1118, 1079, 1073, 1077, 1082]
   \<and> latin_to_cyrillic (asc ''o'' @ [8216] @ asc ''zbek'')
       \<noteq> latin_to_cyrillic (asc ''o'' @ [39] @ asc ''zbek'')"
  unfolding translit_left_quote translit_ascii_quote translit_modifier by simp

text \<open>
  C4, as amended. Both operations compare the number of characters in U+0400..U+04FF
  (\<open>cyrillic_count\<close>) with the number of Latin letters (\<open>latin_count\<close>), and each has its
  own rule for a tie. \<open>transliterate_if_latin\<close> transliterates exactly when the Latin
  letters are strictly more; on a tie it returns the text unchanged with the flag
  \<open>False\<close>. \<open>detect_script\<close> returns \<open>"Cyrillic"\<close> exactly when the Cyrillic characters
  are strictly more, \<open>"Latin"\<close> on a tie with at least one Latin letter, and \<open>"Unknown"\<close>
  when there is no letter of either kind.
\<close>

theorem script_tie_rules:
  "(cyrillic_count text < latin_count text \<longrightarrow>
      transliterate_if_latin text = (latin_to_cyrillic text, True)) \<and>
   (latin_count text \<le> cyrillic_count text \<longrightarrow> transliterate_if_latin text = (text, False)) \<and>
   (latin_count text < cyrillic_count text \<longrightarrow> detect_script text = asc ''Cyrillic'') \<and>
   (latin_count text = cyrillic_count text \<and> 0 < latin_count text \<longrightarrow>
      detect_script text = asc ''Latin'') \<and>
   (cyrillic_count text < latin_count text \<longrightarrow> detect_script text = asc ''Latin'') \<and>
   (latin_count text = 0 \<and> cyrillic_count text = 0 \<longrightarrow> detect_script text = asc ''Unknown'')"
  by (simp add: transliterate_if_latin_def detect_script_def)

text \<open>The theorem at a tie (\<open>a\<close> and the Cyrillic letter U+0431), at a Latin text, at a
  Cyrillic text, and at a text without letters.\<close>

theorem script_tie_rules_witness:
  "transliterate_if_latin (asc ''a'' @ [1073]) = (asc ''a'' @ [1073], False)
   \<and> detect_script (asc ''a'' @ [1073]) = asc ''Latin''
   \<and> transliterate_if_latin (asc ''doc'') = ([1076, 1086, 99], True)
   \<and> detect_script (asc ''doc'') = asc ''Latin''
   \<and> detect_script [1073] = asc ''Cyrillic''
   \<and> detect_script (asc ''12 !'') = asc ''Unknown''"
proof -
  have c: "latin_count (asc ''a'' @ [1073]) = 1" "cyrillic_count (asc ''a'' @ [1073]) = 1"
    "latin_count (asc ''doc'') = 3" "cyrillic_count (asc ''doc'') = 0"
    "latin_count [1073] = 0" "cyrillic_count [1073] = 1"
    "latin_count (asc ''12 !'') = 0" "cyrillic_count (asc ''12 !'') = 0"
    by (simp_all add: latin_count_def cyrillic_count_def is_latin_def is_cyrillic_def asc_def)
  from script_tie_rules [of "asc ''a'' @ [1073]"] script_tie_rules [of "asc ''doc''"]
    script_tie_rules [of "[1073]"] script_tie_rules [of "asc ''12 !''"]
  show ?thesis unfolding c by (simp add: translit_doc)
qed

text \<open>
  C4 as stated fails: in \<open>transliterate_if_latin\<close> a tie with a Latin letter is not
  treated as Latin. The text \<open>a\<close> followed by U+0431 has one letter of each kind and is
  returned as it is, although transliterating it would change it.
\<close>

theorem tie_is_not_transliterated:
  "latin_count (asc ''a'' @ [1073]) = cyrillic_count (asc ''a'' @ [1073])
   \<and> 0 < latin_count (asc ''a'' @ [1073])
   \<and> transliterate_if_latin (asc ''a'' @ [1073]) = (asc ''a'' @ [1073], False)
   \<and> latin_to_cyrillic (asc ''a'' @ [1073]) = [1072, 1073]
   \<and> latin_to_cyrillic (asc ''a'' @ [1073]) \<noteq> asc ''a'' @ [1073]"
proof -
  have "latin_to_cyrillic (asc ''a'' @ [1073]) = [1072, 1073]" by (simp add: translit_eval)
  with tie_eval show ?thesis by (simp add: asc_def)
qed

text \<open>
  C10. \<open>latin_to_cyrillic\<close> leaves the Latin letters \<open>c\<close>, \<open>w\<close>, \<open>C\<close> and \<open>W\<close> in place
  unless a multi-character entry consumed them: the single-character pass keeps the
  length of its input \<open>m\<close> and keeps each of these four letters at its position, as no
  single-character key is one of them; \<open>w\<close> and \<open>W\<close> occur in no key at all, so the output
  holds as many of each as the input; and \<open>doc\<close> gives U+0434, U+043E and the Latin \<open>c\<close>.
  The function is total: it is three loops of \<open>str.replace\<close>, which raises for no string,
  so the model has no error value and is defined by terminating recursion.
\<close>

theorem latin_to_cyrillic_keeps_c_w:
  "latin_to_cyrillic text = replace_single (replace_multi (normalize_apostrophes text)) \<and>
   ((x = 99 \<or> x = 67 \<or> x = 119 \<or> x = 87) \<and> i < length m \<and> m ! i = x \<longrightarrow>
      length (replace_single m) = length m \<and> replace_single m ! i = x) \<and>
   count_list (latin_to_cyrillic text) 119 = count_list text 119 \<and>
   count_list (latin_to_cyrillic text) 87 = count_list text 87 \<and>
   latin_to_cyrillic (asc ''doc'') = [1076, 1086, 99]"
  using replace_single_keeps [of x i m] latin_to_cyrillic_count_w [of 119 "text"]
    latin_to_cyrillic_count_w [of 87 "text"] translit_doc
  by (simp add: latin_to_cyrillic_def)

text \<open>The theorem at the letter \<open>c\<close> of \<open>doc\<close>, position 2.\<close>

theorem latin_to_cyrillic_keeps_c_w_witness:
  "2 < length (asc ''doc'') \<and> asc ''doc'' ! 2 = 99
   \<and> length (replace_single (asc ''doc'')) = 3 \<and> replace_single (asc ''doc'') ! 2 = 99"
proof -
  have h: "2 < length (asc ''doc'')" "asc ''doc'' ! 2 = 99" "length (asc ''doc'') = 3"
    by (simp_all add: asc_def)
  from latin_to_cyrillic_keeps_c_w [of "asc ''doc''" 99 2 "asc ''doc''"] h
  show ?thesis by simp
qed


section \<open>Claims about the acronyms\<close>

text \<open>
  C8, as amended. A word boundary of the pattern is the regular expression's \<open>\b\<close>, so
  digits and the underscore belong to a word like letters do. On a runtime with the
  Unicode facts of \<open>acronym_runtime\<close>, \<open>process_acronyms_in_text\<close> does what
  \<open>spell_word_runs\<close> says: it replaces every maximal run of word characters that consists
  of two or more letters of the class by the letters' names joined by single hyphens,
  and leaves every other run unchanged: a run of length 1, a word with a lower-case
  letter, and an upper-case run next to a digit or an underscore. The spelling of a run
  of \<open>n\<close> class letters holds exactly \<open>n - 1\<close> hyphens. The name of a character is looked
  up in the Cyrillic table first, then in the Latin table, and is otherwise the
  character in lower case.
\<close>

theorem acronyms_spelled_by_word_runs:
  "acronym_runtime R \<Longrightarrow>
     process_acronyms_in_text R text = spell_word_runs R text \<and>
     (run \<noteq> [] \<and> list_all acr_class run \<longrightarrow>
        count_list (spell_out_acronym R run) 45 = length run - 1) \<and>
     spell_out_acronym R run = py_join [45] (map (letter_name R) run) \<and>
     letter_name R c =
       (case map_of LETTER_NAMES_CYRILLIC c of
          Some name \<Rightarrow> name
        | None \<Rightarrow> (case map_of LETTER_NAMES_LATIN c of
                     Some name \<Rightarrow> name
                   | None \<Rightarrow> char_lower R c))"
proof -
  assume R: "acronym_runtime R"
  have "\<not> (is_word R None \<and> text \<noteq> [] \<and> word_char R (hd text))" by (simp add: is_word_def)
  with R have "sub_acronyms R None text = spell_word_runs R text"
    by (rule sub_acronyms_word_runs)
  then have 1: "process_acronyms_in_text R text = spell_word_runs R text"
    by (simp add: process_acronyms_in_text_def)
  have 2: "run \<noteq> [] \<and> list_all acr_class run \<longrightarrow>
        count_list (spell_out_acronym R run) 45 = length run - 1"
    using spell_out_hyphens [OF R] by blast
  from 1 2 show ?thesis by (simp add: spell_out_acronym_def letter_name_def)
qed

text \<open>The theorem on the runtime for Basic Latin and Cyrillic, at \<open>Men USA da\<close> and the
  run \<open>USA\<close>.\<close>

theorem acronyms_spelled_by_word_runs_witness:
  "acronym_runtime latin_cyrillic_runtime
   \<and> spell_word_runs latin_cyrillic_runtime (asc ''Men USA da'')
       = asc ''Men '' @ [1091, 45, 1101, 1089, 45, 1072] @ asc '' da''
   \<and> asc ''USA'' \<noteq> [] \<and> list_all acr_class (asc ''USA'')
   \<and> count_list (spell_out_acronym latin_cyrillic_runtime (asc ''USA'')) 45 = 2"
proof -
  have u: "asc ''USA'' \<noteq> [] \<and> list_all acr_class (asc ''USA'')" "length (asc ''USA'') - 1 = 2"
    by (simp_all add: asc_def acr_class_def)
  note t = acronyms_spelled_by_word_runs
    [OF latin_cyrillic_runtime_ok, of "asc ''Men USA da''" "asc ''USA''"]
  from t have a: "process_acronyms_in_text latin_cyrillic_runtime (asc ''Men USA da'')
          = spell_word_runs latin_cyrillic_runtime (asc ''Men USA da'')"
    by (rule conjunct1)
  from t u(1) have "count_list (spell_out_acronym latin_cyrillic_runtime (asc ''USA'')) 45
          = length (asc ''USA'') - 1"
    by blast
  then have b: "count_list (spell_out_acronym latin_cyrillic_runtime (asc ''USA'')) 45 = 2"
    by (simp only: u(2))
  from a acr_usa have "spell_word_runs latin_cyrillic_runtime (asc ''Men USA da'')
       = asc ''Men '' @ [1091, 45, 1101, 1089, 45, 1072] @ asc '' da''"
    by (simp only:)
  with b u(1) latin_cyrillic_runtime_ok show ?thesis by blast
qed

text \<open>
  C8 as stated fails: a digit is not a boundary. In \<open>USA1\<close> the run \<open>USA\<close> of three
  upper-case letters is followed by a digit and is left as it is.
\<close>

theorem acronym_before_digit_is_kept:
  "process_acronyms_in_text latin_cyrillic_runtime (asc ''USA1'') = asc ''USA1''
   \<and> asc ''USA1'' \<noteq> [1091, 45, 1101, 1089, 45, 1072] @ asc ''1''"
  using acr_usa1 by (simp add: asc_def)


section \<open>Claims about the normalizer\<close>

text \<open>
  C2, as amended. On a runtime with the Unicode facts of \<open>acronym_runtime\<close>, and for a
  text within the two limits of \<open>within_limit\<close> (it has no more decimal digits than \<open>int\<close>
  converts, or there is no such limit, and the frames left allow one nested call for
  every nine of its digits and three more), the three steps return, and their output
  holds no decimal digit. The third step
  transliterates exactly when, in the output \<open>words\<close> of the first two steps, the Latin
  letters are strictly more than the Cyrillic characters; then the only ASCII letters
  left in the output are \<open>c\<close>, \<open>C\<close>, \<open>w\<close> and \<open>W\<close>, for which the table has no
  single-character entry. Otherwise the output is \<open>words\<close> as it is, with every Latin
  letter it holds; the Cyrillic letter names and number words that the first two steps
  write count towards the Cyrillic side.
\<close>

theorem normalize_output_contract:
  assumes R: "acronym_runtime R" and lim: "within_limit R (digit_count text)"
  shows "\<exists>words out was_latin.
           convert_numbers_in_text R (process_acronyms_in_text R text) = Inr words \<and>
           normalize R text = Inr (out, was_latin) \<and>
           (\<forall>x\<in>set out. \<not> is_digit x) \<and>
           (was_latin \<longleftrightarrow> cyrillic_count words < latin_count words) \<and>
           (was_latin \<longrightarrow> out = latin_to_cyrillic words \<and>
              (\<forall>x\<in>set out. ascii_letter x \<longrightarrow> x = 99 \<or> x = 67 \<or> x = 119 \<or> x = 87)) \<and>
           (\<not> was_latin \<longrightarrow> out = words)"
proof -
  let ?a = "process_acronyms_in_text R text"
  have "digit_count ?a = digit_count text"
    unfolding digit_count_def by (simp add: filter_digit_acronyms [OF R])
  with lim have "within_limit R (digit_count ?a)" by simp
  from convert_numbers_ok [OF this] obtain words where
    w: "convert_numbers_in_text R ?a = Inr words" "list_all (\<lambda>c. \<not> is_digit c) words" by blast
  from w(2) have wd: "\<forall>x\<in>set words. \<not> is_digit x" by (simp add: list_all_iff)
  have n: "normalize R text = Inr (transliterate_if_latin words)"
    by (simp add: normalize_def w(1))
  show ?thesis
  proof (cases "cyrillic_count words < latin_count words")
    case True
    then have t: "transliterate_if_latin words = (latin_to_cyrillic words, True)"
      by (simp add: transliterate_if_latin_def)
    have "\<forall>x\<in>set (latin_to_cyrillic words). ascii_letter x \<longrightarrow> x = 99 \<or> x = 67 \<or> x = 119 \<or> x = 87"
      unfolding latin_to_cyrillic_def using replace_single_latin by blast
    with w(1) n t True latin_to_cyrillic_digits [OF wd] show ?thesis by auto
  next
    case False
    then have "transliterate_if_latin words = (words, False)"
      by (simp add: transliterate_if_latin_def)
    with w(1) n False wd show ?thesis by auto
  qed
qed


text \<open>The theorem on the runtime for Basic Latin and Cyrillic, at \<open>doc\<close>, which is
  transliterated, and at \<open>USA 25 yil\<close>, which is not.\<close>

theorem normalize_output_contract_witness:
  "acronym_runtime latin_cyrillic_runtime
   \<and> within_limit latin_cyrillic_runtime (digit_count (asc ''doc''))
   \<and> within_limit latin_cyrillic_runtime (digit_count (asc ''USA 25 yil''))
   \<and> list_all (\<lambda>x. \<not> is_digit x) [1076, 1086, 99]
   \<and> list_all (\<lambda>x. ascii_letter x \<longrightarrow> x = 99 \<or> x = 67 \<or> x = 119 \<or> x = 87) [1076, 1086, 99]
   \<and> list_all (\<lambda>x. \<not> is_digit x)
        [1091, 45, 1101, 1089, 45, 1072, 32, 1081, 1080, 1075, 1080, 1088, 1084, 1072, 32,
         1073, 1077, 1096, 32, 121, 105, 108]"
proof -
  have d: "digit_count (asc ''doc'') = 0" "digit_count (asc ''USA 25 yil'') = 2"
    by (simp_all add: digit_count_def is_digit_def decimal_def nd_zeros_def asc_def)
  have l: "within_limit latin_cyrillic_runtime (digit_count (asc ''doc''))"
    "within_limit latin_cyrillic_runtime (digit_count (asc ''USA 25 yil''))"
    unfolding d by (simp_all add: within_limit_def latin_cyrillic_runtime_def)
  from normalize_output_contract [OF latin_cyrillic_runtime_ok l(1)]
  have 1: "list_all (\<lambda>x. \<not> is_digit x) [1076, 1086, 99]
      \<and> list_all (\<lambda>x. ascii_letter x \<longrightarrow> x = 99 \<or> x = 67 \<or> x = 119 \<or> x = 87) [1076, 1086, 99]"
    unfolding normalize_doc list_all_iff by blast
  from normalize_output_contract [OF latin_cyrillic_runtime_ok l(2)]
  have 2: "list_all (\<lambda>x. \<not> is_digit x)
        [1091, 45, 1101, 1089, 45, 1072, 32, 1081, 1080, 1075, 1080, 1088, 1084, 1072, 32,
         1073, 1077, 1096, 32, 121, 105, 108]"
    unfolding normalize_usa list_all_iff by blast
  from latin_cyrillic_runtime_ok l 1 2 show ?thesis by blast
qed

text \<open>
  C2 as stated fails. The Latin text \<open>doc\<close> is transliterated and keeps its Latin \<open>c\<close>.
  A text of four Cyrillic letters and the Latin word \<open>yil\<close> is returned as it is. And
  the Latin text \<open>USA 25 yil\<close> keeps the word \<open>yil\<close> too: after the first two steps
  have written the letter names and the number words in Cyrillic, the Latin letters are
  the minority.
\<close>

theorem normalize_keeps_latin_letters:
  "normalize latin_cyrillic_runtime (asc ''doc'') = Inr ([1076, 1086, 99], True)
   \<and> is_latin 99
   \<and> normalize latin_cyrillic_runtime [1084, 1077, 1085, 1080, 32, 121, 105, 108]
       = Inr ([1084, 1077, 1085, 1080, 32, 121, 105, 108], False)
   \<and> normalize latin_cyrillic_runtime (asc ''USA 25 yil'')
       = Inr ([1091, 45, 1101, 1089, 45, 1072, 32, 1081, 1080, 1075, 1080, 1088, 1084, 1072, 32,
               1073, 1077, 1096, 32, 121, 105, 108], False)
   \<and> is_latin 121 \<and> is_latin 105 \<and> is_latin 108"
  using normalize_doc normalize_mixed normalize_usa by (simp add: is_latin_def)


end
